theory Spec2Isabelle
  imports Main "HOL-Library.Multiset"
begin

section \<open>The sorted linked list (sorted-linked-list.ts)\<close>

text \<open>
  \<^verbatim>\<open>Comparator<T>.compare(valueA, valueB): number\<close> is a function into the integers here:
  negative, zero or positive. The doubles of the source are modelled as unbounded
  integers throughout (the spec puts arbitrary precision and rounding out of scope).
\<close>

type_synonym 'a comparator = "'a \<Rightarrow> 'a \<Rightarrow> int"

text \<open>
  A \<^verbatim>\<open>SortedLinkedList<T>\<close> object is one node: its \<^verbatim>\<open>value\<close> and its \<^verbatim>\<open>next\<close>, which
  is undefined (\<open>None\<close>) at the last node. The \<^verbatim>\<open>comparator\<close> field is the same in every
  node of a list; the model passes it to \<open>insert\<close> as an argument. The selectors are the
  methods \<^verbatim>\<open>getValue()\<close> and \<^verbatim>\<open>getNext()\<close>.
\<close>

datatype 'a sll = Node (getValue: 'a) (getNext: "'a sll option")

text \<open>
  The loop of \<^verbatim>\<open>insert\<close>: with \<^verbatim>\<open>current\<close> the node under inspection, walk while
  \<^verbatim>\<open>current\<close> is defined and \<^verbatim>\<open>compare(current.getValue(), newValue) < 0\<close>, then link the
  new node in front of \<^verbatim>\<open>current\<close>. The result is the chain that \<^verbatim>\<open>previous.next\<close> holds
  once the loop and the two \<^verbatim>\<open>setNext\<close> calls are done.
\<close>

fun splice_in :: "'a comparator \<Rightarrow> 'a sll option \<Rightarrow> 'a \<Rightarrow> 'a sll" where
  "splice_in cmp None newValue = Node newValue None"
| "splice_in cmp (Some (Node v nxt)) newValue =
     (if cmp v newValue < 0 then Node v (Some (splice_in cmp nxt newValue))
      else Node newValue (Some (Node v nxt)))"

text \<open>
  \<^verbatim>\<open>insert(newValue)\<close>: a new head when the head's value compares greater than the new
  value, otherwise the same head with the new node spliced into the rest. The source
  updates the nodes in place and returns the head; the model returns the updated chain.
\<close>

definition insert_sll :: "'a comparator \<Rightarrow> 'a sll \<Rightarrow> 'a \<Rightarrow> 'a sll" where
  "insert_sll cmp this newValue =
     (if cmp (getValue this) newValue > 0 then Node newValue (Some this)
      else Node (getValue this) (Some (splice_in cmp (getNext this) newValue)))"

text \<open>
  Reading a list out: \<^verbatim>\<open>getValue()\<close> of the head, then the same on \<^verbatim>\<open>getNext()\<close>, until
  \<^verbatim>\<open>getNext()\<close> is undefined.
\<close>

fun values_of :: "'a sll \<Rightarrow> 'a list" where
  "values_of (Node v None) = [v]"
| "values_of (Node v (Some n)) = v # values_of n"

text \<open>The sorted invariant: the comparator is at most 0 on every two adjacent nodes.\<close>

fun adjacent_sorted :: "'a comparator \<Rightarrow> 'a sll \<Rightarrow> bool" where
  "adjacent_sorted cmp (Node v None) = True"
| "adjacent_sorted cmp (Node v (Some n)) = (cmp v (getValue n) \<le> 0 \<and> adjacent_sorted cmp n)"

text \<open>
  What the \<^verbatim>\<open>Comparator\<close> interface asks of an implementation, as far as \<open>insert\<close>
  needs it: when \<open>a\<close> is not less than \<open>b\<close>, then \<open>b\<close> is not greater than \<open>a\<close>.
\<close>

definition sign_consistent :: "'a comparator \<Rightarrow> bool" where
  "sign_consistent cmp = (\<forall>a b. 0 \<le> cmp a b \<longrightarrow> cmp b a \<le> 0)"

text \<open>
  The only exception the modelled code can raise is JavaScript's \<^verbatim>\<open>TypeError\<close>, from a
  method call on \<^verbatim>\<open>undefined\<close>.
\<close>

datatype error = TypeError

text \<open>
  \<^verbatim>\<open>Array.prototype.sort(compare)\<close> of the JavaScript library: a stable sort into
  ascending order of the comparator (ECMAScript 2019). Modelled as the insertion sort that
  puts an element in front of the first later element it is not greater than.
\<close>

fun sort_insert :: "'a comparator \<Rightarrow> 'a \<Rightarrow> 'a list \<Rightarrow> 'a list" where
  "sort_insert cmp x [] = [x]"
| "sort_insert cmp x (y # ys) =
     (if cmp x y \<le> 0 then x # y # ys else y # sort_insert cmp x ys)"

fun js_sort :: "'a comparator \<Rightarrow> 'a list \<Rightarrow> 'a list" where
  "js_sort cmp [] = []"
| "js_sort cmp (x # xs) = sort_insert cmp x (js_sort cmp xs)"

text \<open>The \<^verbatim>\<open>for\<close> loop of \<^verbatim>\<open>create\<close>: one node for each value, each linked to the next.\<close>

fun link :: "'a \<Rightarrow> 'a list \<Rightarrow> 'a sll" where
  "link v [] = Node v None"
| "link v (x # xs) = Node v (Some (link x xs))"

text \<open>
  What \<^verbatim>\<open>create(comparator, ...values)\<close> returns. With no values, \<^verbatim>\<open>values.shift()\<close> is
  \<^verbatim>\<open>undefined\<close> and the head is a single node whose value is \<^verbatim>\<open>undefined\<close>: \<open>Hollow\<close>,
  the only list of the source that holds no element. Otherwise the head of the chain of
  the sorted values.
\<close>

datatype 'a container = Hollow | Chain "'a sll"

definition create :: "'a comparator \<Rightarrow> 'a list \<Rightarrow> 'a container" where
  "create cmp vals =
     (case js_sort cmp vals of [] \<Rightarrow> Hollow | v # rest \<Rightarrow> Chain (link v rest))"

text \<open>
  A value as JavaScript returns it: \<^verbatim>\<open>undefined\<close> or a value of the type. \<^verbatim>\<open>getValue()\<close>
  on the head that \<^verbatim>\<open>create\<close> returned is \<^verbatim>\<open>return this.value\<close>: it has no branch that
  raises, so the result is always \<open>Inr\<close>.
\<close>

datatype 'a js_value = Undefined | Defined 'a

definition head_getValue :: "'a container \<Rightarrow> error + 'a js_value" where
  "head_getValue c = (case c of Hollow \<Rightarrow> Inr Undefined | Chain n \<Rightarrow> Inr (Defined (getValue n)))"

section \<open>The prime generator (problem-3.ts)\<close>

text \<open>
  A \<^verbatim>\<open>ValuedIterator\<close> over \<^verbatim>\<open>multipleGenerator(value, null)\<close>. With \<^verbatim>\<open>max\<close> null the
  loop of \<^verbatim>\<open>multipleGenerator\<close> never ends: the first \<^verbatim>\<open>next()\<close> of the iterator (made by
  the constructor) yields \<^verbatim>\<open>value\<close>, every later one adds \<^verbatim>\<open>value\<close> to \<^verbatim>\<open>multiple\<close> and
  yields it. So the iterator's state is the constant \<^verbatim>\<open>value\<close> (\<open>iter_value\<close>) and the
  last multiple, which is what \<^verbatim>\<open>currentValue\<close> caches.
\<close>

datatype valued_iterator = ValuedIterator (iter_value: int) (currentValue: int)

definition new_ValuedIterator :: "int \<Rightarrow> valued_iterator" where
  "new_ValuedIterator v = ValuedIterator v v"

definition vi_next :: "valued_iterator \<Rightarrow> valued_iterator" where
  "vi_next g = ValuedIterator (iter_value g) (currentValue g + iter_value g)"

definition current :: "valued_iterator \<Rightarrow> int" where
  "current g = currentValue g"

definition comparator :: "valued_iterator comparator" where
  "comparator valueA valueB = current valueA - current valueB"

text \<open>
  The inner \<^verbatim>\<open>while\<close> loop of \<^verbatim>\<open>primeGenerator\<close> on the locals \<^verbatim>\<open>value\<close> and
  \<^verbatim>\<open>primeMultipleGenerators\<close>. It need not end on every state (a generator of step 0
  at the head stays there), so not returning is \<open>None\<close>.
  \<^verbatim>\<open>primeMultipleGenerators.getNext().insert(...)\<close> raises a TypeError on a one-node list.
\<close>

partial_function (option) sift ::
  "int \<Rightarrow> valued_iterator sll \<Rightarrow> (error + int \<times> valued_iterator sll) option" where
  "sift val gens =
     (if current (getValue gens) < val then
        (case getNext gens of
           None \<Rightarrow> Some (Inl TypeError)
         | Some rest \<Rightarrow>
             let gens' = insert_sll comparator rest (vi_next (getValue gens))
             in sift (if current (getValue gens') = val then val + 2 else val) gens')
      else Some (Inr (val, gens)))"

declare sift.simps [code]

text \<open>
  The generator object. \<^verbatim>\<open>maxValue\<close> is \<open>None\<close> when the argument is null or undefined.
  The state says where the body is suspended and holds the locals that exist there.
\<close>

datatype gen_state =
    Start
  | AtYield2 int "valued_iterator container"
  | AtYield3 int "valued_iterator container"
  | AtYield5 int "valued_iterator container"
  | AtYield7 int "valued_iterator container"
  | AtYieldValue int "valued_iterator sll"
  | Finished

record generator =
  maxValue :: "int option"
  state :: gen_state

definition primeGenerator :: "int option \<Rightarrow> generator" where
  "primeGenerator mv = \<lparr>maxValue = mv, state = Start\<rparr>"

text \<open>
  One turn of \<^verbatim>\<open>while (true)\<close> from its top to the \<^verbatim>\<open>break\<close> or to \<^verbatim>\<open>yield value\<close>.
  A step of the iterator returns the yielded value (\<open>Some v\<close>) or reports that the
  generator is done (\<open>None\<close>), with the generator's next state.
\<close>

definition loop_turn ::
  "generator \<Rightarrow> int \<Rightarrow> valued_iterator sll \<Rightarrow> (error + int option \<times> generator) option" where
  "loop_turn g val gens =
     (case sift val gens of
        None \<Rightarrow> None
      | Some (Inl e) \<Rightarrow> Some (Inl e)
      | Some (Inr (val', gens')) \<Rightarrow>
          if (case maxValue g of None \<Rightarrow> False | Some m \<Rightarrow> val' \<ge> m)
          then Some (Inr (None, g\<lparr>state := Finished\<rparr>))
          else Some (Inr (Some val', g\<lparr>state := AtYieldValue val' gens'\<rparr>)))"

text \<open>
  One call of \<^verbatim>\<open>next()\<close> on the generator: run the body from where it is suspended to
  the next \<^verbatim>\<open>yield\<close> or to its end. The first call sets up the locals and yields 2; the
  calls after \<^verbatim>\<open>yield 7\<close> and after \<^verbatim>\<open>yield value\<close> run the \<^verbatim>\<open>while (true)\<close> loop.
  \<^verbatim>\<open>getValue().current()\<close> on a head whose value is undefined raises a TypeError.
\<close>

definition gen_next :: "generator \<Rightarrow> (error + int option \<times> generator) option" where
  "gen_next g =
     (case state g of
        Start \<Rightarrow>
          Some (Inr (Some 2, g\<lparr>state := AtYield2 11
            (create comparator
               [new_ValuedIterator 3, new_ValuedIterator 5, new_ValuedIterator 7])\<rparr>))
      | AtYield2 val c \<Rightarrow> Some (Inr (Some 3, g\<lparr>state := AtYield3 val c\<rparr>))
      | AtYield3 val c \<Rightarrow> Some (Inr (Some 5, g\<lparr>state := AtYield5 val c\<rparr>))
      | AtYield5 val c \<Rightarrow> Some (Inr (Some 7, g\<lparr>state := AtYield7 val c\<rparr>))
      | AtYield7 val c \<Rightarrow>
          (case c of Hollow \<Rightarrow> Some (Inl TypeError) | Chain gens \<Rightarrow> loop_turn g val gens)
      | AtYieldValue val gens \<Rightarrow>
          loop_turn g (val + 2) (insert_sll comparator gens (new_ValuedIterator val))
      | Finished \<Rightarrow> Some (Inr (None, g)))"

text \<open>The first \<open>n\<close> values of a generator (fewer when it ends before).\<close>

fun gen_take :: "nat \<Rightarrow> generator \<Rightarrow> (error + int list) option" where
  "gen_take 0 g = Some (Inr [])"
| "gen_take (Suc n) g =
     (case gen_next g of
        None \<Rightarrow> None
      | Some (Inl e) \<Rightarrow> Some (Inl e)
      | Some (Inr (None, g')) \<Rightarrow> Some (Inr [])
      | Some (Inr (Some v, g')) \<Rightarrow>
          (case gen_take n g' of
             None \<Rightarrow> None
           | Some (Inl e) \<Rightarrow> Some (Inl e)
           | Some (Inr vs) \<Rightarrow> Some (Inr (v # vs))))"

text \<open>
  All the values of a generator, as a \<^verbatim>\<open>for ... of\<close> loop that runs to the end sees
  them. \<open>None\<close> when the generator never ends.
\<close>

partial_function (option) gen_all :: "generator \<Rightarrow> (error + int list) option" where
  "gen_all g =
     (case gen_next g of
        None \<Rightarrow> None
      | Some (Inl e) \<Rightarrow> Some (Inl e)
      | Some (Inr (None, g')) \<Rightarrow> Some (Inr [])
      | Some (Inr (Some v, g')) \<Rightarrow>
          Option.bind (gen_all g')
            (\<lambda>r. Some (case r of Inl e \<Rightarrow> Inl e | Inr vs \<Rightarrow> Inr (v # vs))))"

declare gen_all.simps [code]

section \<open>Primality test and factorisation (problem-3.ts)\<close>

text \<open>
  \<^verbatim>\<open>value % d == 0\<close> on integers: true when \<open>d\<close> divides \<open>value\<close>; for \<open>d = 0\<close>
  the remainder is NaN and the test is false.
\<close>

definition rem_is_zero :: "int \<Rightarrow> int \<Rightarrow> bool" where
  "rem_is_zero val d = (d \<noteq> 0 \<and> val mod d = 0)"

text \<open>
  \<^verbatim>\<open>i <= Math.sqrt(value)\<close> on integers: for a negative \<open>value\<close> the root is NaN and the
  test is false; otherwise \<open>i\<close> is at most the root when it is not positive or its
  square is at most \<open>value\<close>.
\<close>

definition le_sqrt :: "int \<Rightarrow> int \<Rightarrow> bool" where
  "le_sqrt i val = (0 \<le> val \<and> (i \<le> 0 \<or> i * i \<le> val))"

text \<open>The \<^verbatim>\<open>for (let i = 5; i <= sqrt; i += 6)\<close> loop of \<^verbatim>\<open>isPrime\<close>.\<close>

function isPrime_loop :: "int \<Rightarrow> int \<Rightarrow> bool" where
  "isPrime_loop val i =
     (if le_sqrt i val then
        (if rem_is_zero val i \<or> rem_is_zero val (i + 2) then False
         else isPrime_loop val (i + 6))
      else True)"
  by pat_completeness auto
termination
proof (relation "measure (\<lambda>(val, i). nat (val + 1 - i))")
  show "wf (measure (\<lambda>(val, i). nat (val + 1 - i)))" by simp
next
  fix val i :: int
  assume a: "le_sqrt i val"
  have "i \<le> val"
  proof (cases "i \<le> 0")
    case True
    with a show ?thesis by (simp add: le_sqrt_def)
  next
    case False
    then have "i * 1 \<le> i * i" by (intro mult_left_mono) auto
    moreover have "i * i \<le> val" using a False by (simp add: le_sqrt_def)
    ultimately show ?thesis by linarith
  qed
  then show "((val, i + 6), (val, i)) \<in> measure (\<lambda>(val, i). nat (val + 1 - i))"
    by simp
qed

declare isPrime_loop.simps [simp del]

definition isPrime :: "int \<Rightarrow> bool" where
  "isPrime val =
     (if val < 2 then False
      else if val = 2 then True
      else if rem_is_zero val 2 \<or> rem_is_zero val 3 then False
      else isPrime_loop val 5)"

text \<open>
  \<^verbatim>\<open>Math.floor(Math.sqrt(value))\<close> of the JavaScript library, on integers: the largest
  \<open>r\<close> with \<open>r * r \<le> value\<close>, found by counting up from 0. For a negative \<open>value\<close>
  the result is NaN; the generator only tests \<^verbatim>\<open>value >= maxValue\<close>, which is false for
  NaN as it is for a missing bound, so NaN is \<open>None\<close> here too.
\<close>

function floor_sqrt_from :: "int \<Rightarrow> int \<Rightarrow> int" where
  "floor_sqrt_from r val =
     (if (r + 1) * (r + 1) \<le> val then floor_sqrt_from (r + 1) val else r)"
  by pat_completeness auto
termination
proof (relation "measure (\<lambda>(r, val). nat (val - r))")
  show "wf (measure (\<lambda>(r, val). nat (val - r)))" by simp
next
  fix r val :: int
  assume a: "(r + 1) * (r + 1) \<le> val"
  have "r + 1 \<le> (r + 1) * (r + 1)"
  proof (cases "r + 1 \<le> 0")
    case True
    have "0 \<le> (r + 1) * (r + 1)" by simp
    with True show ?thesis by linarith
  next
    case False
    then have "(r + 1) * 1 \<le> (r + 1) * (r + 1)" by (intro mult_left_mono) auto
    then show ?thesis by simp
  qed
  with a show "((r + 1, val), (r, val)) \<in> measure (\<lambda>(r, val). nat (val - r))"
    by simp
qed

declare floor_sqrt_from.simps [simp del]

definition floor_sqrt :: "int \<Rightarrow> int option" where
  "floor_sqrt val = (if val < 0 then None else Some (floor_sqrt_from 0 val))"

text \<open>
  The \<^verbatim>\<open>for (let prime of ...)\<close> loop of \<^verbatim>\<open>primeFactors\<close>: the first value of the
  generator that divides \<open>value\<close>, or \<open>None\<close> when the generator ends before one does.
  The loop pulls no value after the one it returns on.
\<close>

partial_function (option) find_factor :: "int \<Rightarrow> generator \<Rightarrow> (error + int option) option" where
  "find_factor val g =
     (case gen_next g of
        None \<Rightarrow> None
      | Some (Inl e) \<Rightarrow> Some (Inl e)
      | Some (Inr (None, g')) \<Rightarrow> Some (Inr None)
      | Some (Inr (Some prime, g')) \<Rightarrow>
          if rem_is_zero val prime then Some (Inr (Some prime)) else find_factor val g')"

declare find_factor.simps [code]

text \<open>
  What \<^verbatim>\<open>primeFactors\<close> returns: a list, or \<^verbatim>\<open>undefined\<close> when control reaches the end of
  the function body after the loop.
\<close>

datatype factors = Factors "int list" | NoResult

text \<open>
  \<^verbatim>\<open>if (result.length == 0 || result[result.length - 1] != value) result.push(x)\<close>, the
  guard of both pushes of \<^verbatim>\<open>primeFactors\<close>: it compares the last factor with \<^verbatim>\<open>value\<close>.
\<close>

definition push_guarded :: "int list \<Rightarrow> int \<Rightarrow> int \<Rightarrow> int list" where
  "push_guarded result val x = (if result = [] \<or> last result \<noteq> val then result @ [x] else result)"

partial_function (option) primeFactors :: "int \<Rightarrow> int list \<Rightarrow> (error + factors) option" where
  "primeFactors val existingFactors =
     (if val = 1 then Some (Inr (Factors existingFactors))
      else if isPrime val then Some (Inr (Factors (push_guarded existingFactors val val)))
      else
        Option.bind (find_factor val (primeGenerator (floor_sqrt val)))
          (\<lambda>r. case r of
                 Inl e \<Rightarrow> Some (Inl e)
               | Inr None \<Rightarrow> Some (Inr NoResult)
               | Inr (Some prime) \<Rightarrow>
                   primeFactors (val div prime) (push_guarded existingFactors val prime)))"

declare primeFactors.simps [code]

section \<open>Specification predicates\<close>

text \<open>A prime: an integer of 2 or more that no integer from 2 up to itself divides.\<close>

definition is_prime :: "int \<Rightarrow> bool" where
  "is_prime p = (2 \<le> p \<and> (\<forall>d\<in>{2..<p}. \<not> d dvd p))"

definition cursor_ok :: "int \<Rightarrow> valued_iterator \<Rightarrow> bool" where
  "cursor_ok val c =
     (3 \<le> iter_value c \<and> iter_value c < val \<and> iter_value c dvd currentValue c
      \<and> iter_value c \<le> currentValue c \<and> currentValue c < val + iter_value c)"

definition sieve_inv :: "int \<Rightarrow> valued_iterator sll \<Rightarrow> bool" where
  "sieve_inv val gens =
     (odd val \<and> 11 \<le> val \<and> adjacent_sorted comparator gens
      \<and> 3 \<le> length (values_of gens)
      \<and> (\<forall>c\<in>set (values_of gens). cursor_ok val c)
      \<and> iter_value ` set (values_of gens) = {q. is_prime q \<and> 3 \<le> q \<and> q < val}
      \<and> current (getValue gens) \<noteq> val)"

definition potential :: "int \<Rightarrow> int \<Rightarrow> valued_iterator sll \<Rightarrow> nat" where
  "potential P val gens =
     nat (P - val) + (\<Sum>c\<in>#mset (values_of gens). nat (P + iter_value c - currentValue c))"

text \<open>The list of generators that \<^verbatim>\<open>primeGenerator\<close> starts from: 3, 5 and 7.\<close>

definition seed_gens :: "valued_iterator sll" where
  "seed_gens = link (new_ValuedIterator 3) [new_ValuedIterator 5, new_ValuedIterator 7]"

text \<open>One more than the last value a suspended generator has yielded (2 before the first).\<close>

fun frontier :: "gen_state \<Rightarrow> int" where
  "frontier Start = 2"
| "frontier (AtYield2 val c) = 3"
| "frontier (AtYield3 val c) = 4"
| "frontier (AtYield5 val c) = 6"
| "frontier (AtYield7 val c) = 8"
| "frontier (AtYieldValue val gens) = val + 1"
| "frontier Finished = 0"

text \<open>What holds of the locals wherever the generator is suspended.\<close>

fun state_inv :: "gen_state \<Rightarrow> bool" where
  "state_inv Start = True"
| "state_inv (AtYield2 val c) = (val = 11 \<and> c = Chain seed_gens)"
| "state_inv (AtYield3 val c) = (val = 11 \<and> c = Chain seed_gens)"
| "state_inv (AtYield5 val c) = (val = 11 \<and> c = Chain seed_gens)"
| "state_inv (AtYield7 val c) = (val = 11 \<and> c = Chain seed_gens)"
| "state_inv (AtYieldValue val gens) = (sieve_inv val gens \<and> val < current (getValue gens))"
| "state_inv Finished = True"

text \<open>
  What one \<^verbatim>\<open>next()\<close> does, seen from outside, when the generator \<open>g\<close> has yielded every
  prime below \<open>f\<close>: it yields the least prime from \<open>f\<close> on, or it ends the generator
  (only in the loop, at or after the fifth call, and only when no prime from \<open>f\<close> on is
  below the bound).
\<close>

definition step_ok :: "int \<Rightarrow> generator \<Rightarrow> int option \<Rightarrow> generator \<Rightarrow> bool" where
  "step_ok f g r g' =
     (maxValue g' = maxValue g \<and> state_inv (state g')
      \<and> (case r of
           None \<Rightarrow> state g' = Finished
             \<and> (state g = Finished
                \<or> (\<exists>B. maxValue g = Some B \<and> 8 \<le> f \<and> (\<forall>q. is_prime q \<and> f \<le> q \<longrightarrow> B \<le> q)))
         | Some v \<Rightarrow> is_prime v \<and> f \<le> v \<and> (\<forall>q. is_prime q \<and> f \<le> q \<longrightarrow> v \<le> q)
             \<and> frontier (state g') = v + 1 \<and> state g' \<noteq> Finished
             \<and> (8 \<le> f \<longrightarrow> (\<forall>B. maxValue g = Some B \<longrightarrow> v < B))))"

text \<open>Inserting values one after the other, each into the list the last insert returned.\<close>

fun insert_each :: "'a comparator \<Rightarrow> 'a sll \<Rightarrow> 'a list \<Rightarrow> 'a sll" where
  "insert_each cmp l [] = l"
| "insert_each cmp l (v # vs) = insert_each cmp (insert_sll cmp l v) vs"

text \<open>
  What the \<^verbatim>\<open>Comparator\<close> interface asks for in full: the sign contract, and that
  "less than or equivalent" is transitive. Values that compare as equivalent need not be
  equal.
\<close>

definition lawful :: "'a comparator \<Rightarrow> bool" where
  "lawful cmp =
     ((\<forall>a b. 0 \<le> cmp a b \<longrightarrow> cmp b a \<le> 0)
      \<and> (\<forall>a b c. cmp a b \<le> 0 \<and> cmp b c \<le> 0 \<longrightarrow> cmp a c \<le> 0))"

text \<open>Two values tie when neither is greater than the other.\<close>

definition tied :: "'a comparator \<Rightarrow> 'a \<Rightarrow> 'a \<Rightarrow> bool" where
  "tied cmp a b = (cmp a b \<le> 0 \<and> cmp b a \<le> 0)"

text \<open>The number of values of a list that are strictly below a value.\<close>

definition rank :: "'a comparator \<Rightarrow> 'a list \<Rightarrow> 'a \<Rightarrow> nat" where
  "rank cmp xs a = card {z \<in> set xs. \<not> cmp a z \<le> 0}"

section \<open>Properties of the sorted linked list\<close>

lemma getValue_splice:
  "getValue (splice_in cmp nxt x) = (case nxt of None \<Rightarrow> x
     | Some n \<Rightarrow> if cmp (getValue n) x < 0 then getValue n else x)"
  by (cases nxt; cases "the nxt") auto

lemma mset_values_node:
  "mset (values_of (Node v nxt)) =
     add_mset v (case nxt of None \<Rightarrow> {#} | Some n \<Rightarrow> mset (values_of n))"
  by (cases nxt) auto

lemma mset_values_splice:
  "mset (values_of (splice_in cmp nxt x)) =
     add_mset x (case nxt of None \<Rightarrow> {#} | Some n \<Rightarrow> mset (values_of n))"
  by (induction cmp nxt x rule: splice_in.induct) (auto simp: mset_values_node)

lemma mset_values_insert:
  "mset (values_of (insert_sll cmp l x)) = add_mset x (mset (values_of l))"
  by (cases l) (simp add: insert_sll_def mset_values_splice mset_values_node)

lemma sorted_splice:
  assumes "sign_consistent cmp"
    and "case nxt of None \<Rightarrow> True | Some n \<Rightarrow> adjacent_sorted cmp n"
  shows "adjacent_sorted cmp (splice_in cmp nxt x)"
  using assms
proof (induction cmp nxt x rule: splice_in.induct)
  case (1 cmp newValue)
  then show ?case by simp
next
  case (2 cmp v nxt newValue)
  show ?case
  proof (cases "cmp v newValue < 0")
    case True
    have rest: "case nxt of None \<Rightarrow> True | Some n \<Rightarrow> adjacent_sorted cmp n"
      using "2.prems"(2) by (cases nxt) auto
    have "cmp v (getValue (splice_in cmp nxt newValue)) \<le> 0"
      using True "2.prems"(2) by (cases nxt) (auto simp: getValue_splice)
    with True "2.IH" [OF True "2.prems"(1) rest] show ?thesis by simp
  next
    case False
    with "2.prems" show ?thesis by (auto simp: sign_consistent_def)
  qed
qed

lemma sorted_insert:
  assumes "sign_consistent cmp" and "adjacent_sorted cmp l"
  shows "adjacent_sorted cmp (insert_sll cmp l newValue)"
proof -
  obtain v nxt where l: "l = Node v nxt" by (cases l)
  have rest: "case nxt of None \<Rightarrow> True | Some n \<Rightarrow> adjacent_sorted cmp n"
    using assms(2) l by (cases nxt) auto
  show ?thesis
  proof (cases "cmp v newValue > 0")
    case True
    with assms l show ?thesis by (auto simp: insert_sll_def sign_consistent_def)
  next
    case False
    have "cmp v (getValue (splice_in cmp nxt newValue)) \<le> 0"
      using False assms(2) l by (cases nxt) (auto simp: getValue_splice)
    with False l sorted_splice [OF assms(1) rest] show ?thesis
      by (simp add: insert_sll_def)
  qed
qed

text \<open>
  C7: for a comparator that keeps the interface's sign contract, a sorted list and a new
  value, \<open>insert\<close> returns a list that holds exactly the prior elements and the new
  value, and in which the comparator is at most 0 on any two adjacent nodes.
\<close>

theorem insert_keeps_elements_and_order:
  assumes "sign_consistent cmp" and "adjacent_sorted cmp l"
  shows "mset (values_of (insert_sll cmp l newValue)) = add_mset newValue (mset (values_of l))
       \<and> adjacent_sorted cmp (insert_sll cmp l newValue)"
  using assms by (simp add: mset_values_insert sorted_insert)

theorem insert_keeps_elements_and_order_witness:
  "sign_consistent (\<lambda>a b :: int. a - b)
   \<and> adjacent_sorted (\<lambda>a b. a - b) (Node (1::int) (Some (Node 5 None)))
   \<and> mset (values_of (insert_sll (\<lambda>a b. a - b) (Node (1::int) (Some (Node 5 None))) 3))
       = add_mset 3 (mset (values_of (Node (1::int) (Some (Node 5 None)))))
   \<and> adjacent_sorted (\<lambda>a b. a - b)
       (insert_sll (\<lambda>a b. a - b) (Node (1::int) (Some (Node 5 None))) 3)"
proof -
  have h1: "sign_consistent (\<lambda>a b :: int. a - b)"
    by (simp add: sign_consistent_def)
  have h2: "adjacent_sorted (\<lambda>a b. a - b) (Node (1::int) (Some (Node 5 None)))"
    by simp
  show ?thesis
    using h1 h2 insert_keeps_elements_and_order [OF h1 h2, of 3] by simp
qed

section \<open>Reading the head of a container\<close>

text \<open>
  C9, as the claim states it, fails: on the container that \<^verbatim>\<open>create\<close> builds from no
  values, \<^verbatim>\<open>getValue()\<close> returns \<^verbatim>\<open>undefined\<close> as an ordinary result and raises nothing.
\<close>

theorem getValue_of_empty_returns_undefined:
  "head_getValue (create (\<lambda>a b :: int. a - b) []) = Inr Undefined"
  by (simp add: head_getValue_def create_def)

text \<open>
  C9, amended: reading the head never fails. \<^verbatim>\<open>getValue()\<close> returns the value stored in
  the head node for every container, and for the container built from no values that
  value is \<^verbatim>\<open>undefined\<close>; no error is raised.
\<close>

theorem getValue_never_fails:
  "head_getValue (create cmp []) = Inr Undefined
   \<and> head_getValue (create cmp (v # vs)) = Inr (Defined (hd (js_sort cmp (v # vs))))
   \<and> head_getValue c \<noteq> Inl e"
proof -
  have ne: "js_sort cmp (v # vs) \<noteq> []"
  proof -
    have "sort_insert cmp v ys \<noteq> []" for ys by (cases ys) auto
    then show ?thesis by simp
  qed
  have "getValue (link x xs) = x" for x :: 'a and xs by (cases xs) auto
  with ne have "head_getValue (create cmp (v # vs)) = Inr (Defined (hd (js_sort cmp (v # vs))))"
    by (cases "js_sort cmp (v # vs)") (auto simp: head_getValue_def create_def)
  then show ?thesis
    by (auto simp: head_getValue_def create_def split: container.splits)
qed

section \<open>Primes\<close>

lemma is_primeI:
  assumes "2 \<le> p" and "\<And>d. 2 \<le> d \<Longrightarrow> d < p \<Longrightarrow> \<not> d dvd p"
  shows "is_prime p"
  using assms by (auto simp: is_prime_def)

lemma is_primeD:
  assumes "is_prime p" and "2 \<le> d" and "d < p"
  shows "\<not> d dvd p"
  using assms by (auto simp: is_prime_def)

lemma is_prime_ge2: "is_prime p \<Longrightarrow> 2 \<le> p"
  by (simp add: is_prime_def)

lemma is_prime_odd:
  assumes "is_prime p" and "2 < p"
  shows "odd p"
  using is_primeD [OF assms(1), of 2] assms(2) by simp

lemma prime_divisor_exists:
  assumes "2 \<le> n"
  shows "\<exists>p. is_prime p \<and> p dvd n \<and> p \<le> n"
  using assms
proof (induction "nat n" arbitrary: n rule: less_induct)
  case less
  show ?case
  proof (cases "is_prime n")
    case True
    then show ?thesis by auto
  next
    case False
    with less.prems obtain d where d: "2 \<le> d" "d < n" "d dvd n"
      by (auto simp: is_prime_def)
    then have "nat d < nat n" by simp
    from less.hyps [OF this d(1)] obtain p where "is_prime p" "p dvd d" "p \<le> d"
      by blast
    with d show ?thesis by (meson dvd_trans less_le_trans less_imp_le order_trans)
  qed
qed

lemma primes_unbounded: "\<exists>p. is_prime p \<and> n \<le> p"
proof -
  define m :: int where "m = fact (nat n) + 1"
  have "1 \<le> (fact (nat n) :: int)" by (simp add: fact_ge_1)
  then have "2 \<le> m" by (simp add: m_def)
  then obtain p where p: "is_prime p" "p dvd m" using prime_divisor_exists by blast
  have "n \<le> p"
  proof (rule ccontr)
    assume "\<not> n \<le> p"
    then have lt: "p < n" by simp
    have p2: "2 \<le> p" using p(1) by (rule is_prime_ge2)
    have "nat p dvd fact (nat n)"
      using p2 lt by (intro dvd_fact) auto
    then have "int (nat p) dvd int (fact (nat n))"
      by (simp only: int_dvd_int_iff)
    then have "p dvd fact (nat n)" using p2 by simp
    with p(2) have "p dvd 1" unfolding m_def
      using dvd_add_right_iff by blast
    with p2 show False by simp
  qed
  with p(1) show ?thesis by blast
qed

section \<open>The sieve loop\<close>

lemma sign_consistent_comparator: "sign_consistent comparator"
  by (simp add: sign_consistent_def comparator_def)

lemma values_of_node:
  "values_of (Node v nxt) = v # (case nxt of None \<Rightarrow> [] | Some n \<Rightarrow> values_of n)"
  by (cases nxt) auto

lemma getValue_in_values: "getValue l \<in> set (values_of l)"
  by (cases l) (simp add: values_of_node)

lemma head_is_least:
  assumes "adjacent_sorted comparator l" and "c \<in> set (values_of l)"
  shows "current (getValue l) \<le> current c"
  using assms
proof (induction l)
  case (Node v nxt)
  show ?case
  proof (cases nxt)
    case None
    with Node.prems show ?thesis by simp
  next
    case (Some n)
    show ?thesis
    proof (cases "c = v")
      case True
      then show ?thesis by simp
    next
      case False
      with Node.prems Some have c: "c \<in> set (values_of n)" by simp
      have "n \<in> set_option nxt" using Some by simp
      from Node.IH [OF this] Node.prems(1) Some c
      have "current (getValue n) \<le> current c" by simp
      moreover have "current v \<le> current (getValue n)"
        using Node.prems(1) Some by (simp add: comparator_def)
      ultimately show ?thesis by simp
    qed
  qed
qed

lemma set_values_insert:
  "set (values_of (insert_sll cmp l x)) = insert x (set (values_of l))"
proof -
  have "set_mset (mset (values_of (insert_sll cmp l x))) = set_mset (add_mset x (mset (values_of l)))"
    by (simp only: mset_values_insert)
  then show ?thesis by simp
qed

lemma length_values_insert:
  "length (values_of (insert_sll cmp l x)) = Suc (length (values_of l))"
proof -
  have "size (mset (values_of (insert_sll cmp l x))) = size (add_mset x (mset (values_of l)))"
    by (simp only: mset_values_insert)
  then show ?thesis by simp
qed

lemma getValue_insert:
  "getValue (insert_sll cmp l x) = (if cmp (getValue l) x > 0 then x else getValue l)"
  by (simp add: insert_sll_def)

text \<open>When the sift has stopped above the candidate, the candidate is prime.\<close>

lemma sieve_exit_prime:
  assumes inv: "sieve_inv val gens" and above: "val \<le> current (getValue gens)"
  shows "is_prime val"
proof (rule is_primeI)
  from inv show "2 \<le> val" by (simp add: sieve_inv_def)
next
  fix d assume d: "2 \<le> d" "d < val"
  show "\<not> d dvd val"
  proof
    assume dv: "d dvd val"
    from prime_divisor_exists [OF d(1)] obtain q where q: "is_prime q" "q dvd d" "q \<le> d"
      by blast
    have qv: "q dvd val" using q(2) dv by (rule dvd_trans)
    have "odd val" using inv by (simp add: sieve_inv_def)
    with qv have "q \<noteq> 2" by auto
    with is_prime_ge2 [OF q(1)] have "3 \<le> q" by simp
    moreover have "q < val" using q(3) d(2) by simp
    ultimately have "q \<in> iter_value ` set (values_of gens)"
      using inv q(1) by (simp add: sieve_inv_def)
    then obtain c where c: "c \<in> set (values_of gens)" "iter_value c = q" by auto
    have ok: "cursor_ok val c" using inv c(1) by (simp add: sieve_inv_def)
    have "current (getValue gens) \<le> current c"
      using inv c(1) by (intro head_is_least) (simp_all add: sieve_inv_def)
    moreover have "current (getValue gens) \<noteq> val" using inv by (simp add: sieve_inv_def)
    ultimately have gt: "val < currentValue c" using above by (simp add: current_def)
    from ok c(2) obtain k where k: "currentValue c = q * k" by (auto simp: cursor_ok_def)
    from qv obtain m where m: "val = q * m" by auto
    have qpos: "0 < q" using \<open>3 \<le> q\<close> by simp
    from gt k m qpos have "m < k" by (simp add: mult_less_cancel_left_pos)
    then have "m + 1 \<le> k" by simp
    then have "q * (m + 1) \<le> q * k" using qpos by (simp add: mult_le_cancel_left_pos)
    then have "val + q \<le> currentValue c" using k m by (simp add: algebra_simps)
    with ok c(2) show False by (simp add: cursor_ok_def)
  qed
qed


lemma cursor_ok_mono:
  assumes "cursor_ok val c" and "val \<le> val'"
  shows "cursor_ok val' c"
  using assms by (auto simp: cursor_ok_def)

lemma cursor_ok_next:
  assumes "cursor_ok val c" and "current c < val"
  shows "cursor_ok val (vi_next c)"
  using assms by (auto simp: cursor_ok_def vi_next_def current_def)

lemma even_not_prime:
  assumes "even v" and "2 < v"
  shows "\<not> is_prime v"
  using assms is_prime_odd by blast

lemma odd_primes_below_step:
  assumes "odd val" and "2 < val" and "\<not> is_prime val"
  shows "{q. is_prime q \<and> 3 \<le> q \<and> q < val + 2} = {q. is_prime q \<and> 3 \<le> q \<and> q < val}"
proof -
  have "\<not> is_prime (val + 1)" using assms(1,2) by (intro even_not_prime) auto
  moreover have "q < val + 2 \<longleftrightarrow> q < val \<or> q = val \<or> q = val + 1" for q by auto
  ultimately show ?thesis using assms(3) by auto
qed

lemma sift_step:
  assumes inv: "sieve_inv val gens" and lt: "current (getValue gens) < val"
  shows "\<exists>rest gens' val'. getNext gens = Some rest
     \<and> gens' = insert_sll comparator rest (vi_next (getValue gens))
     \<and> val' = (if current (getValue gens') = val then val + 2 else val)
     \<and> sieve_inv val' gens'
     \<and> (val' \<noteq> val \<longrightarrow> \<not> is_prime val)
     \<and> mset (values_of gens) = add_mset (getValue gens) (mset (values_of rest))
     \<and> mset (values_of gens') = add_mset (vi_next (getValue gens)) (mset (values_of rest))"
proof -
  obtain h nxt where gens: "gens = Node h nxt" by (cases gens)
  have "3 \<le> length (values_of gens)" using inv by (simp add: sieve_inv_def)
  with gens obtain rest where nxt: "nxt = Some rest" by (cases nxt) auto
  have vals: "values_of gens = h # values_of rest" using gens nxt by simp
  have len: "2 \<le> length (values_of rest)"
    using \<open>3 \<le> length (values_of gens)\<close> vals by simp
  have srest: "adjacent_sorted comparator rest" using inv gens nxt by (simp add: sieve_inv_def)
  have all_ok: "\<forall>c\<in>set (values_of gens). cursor_ok val c" using inv by (simp add: sieve_inv_def)
  have h_ok: "cursor_ok val h" using all_ok vals by simp
  have lt': "current h < val" using lt gens by simp
  define gens' where "gens' = insert_sll comparator rest (vi_next h)"
  define val' where "val' = (if current (getValue gens') = val then val + 2 else val)"
  have set': "set (values_of gens') = insert (vi_next h) (set (values_of rest))"
    by (simp add: gens'_def set_values_insert)
  have sorted': "adjacent_sorted comparator gens'"
    unfolding gens'_def using sign_consistent_comparator srest by (rule sorted_insert)
  have len': "3 \<le> length (values_of gens')"
    using len by (simp add: gens'_def length_values_insert)
  have ok': "\<forall>c\<in>set (values_of gens'). cursor_ok val c"
    using all_ok vals cursor_ok_next [OF h_ok lt'] by (simp add: set')
  have "iter_value (vi_next h) = iter_value h" by (simp add: vi_next_def)
  then have "iter_value ` set (values_of gens') = iter_value ` set (values_of gens)"
    by (simp add: set' vals)
  then have bases: "iter_value ` set (values_of gens') = {q. is_prime q \<and> 3 \<le> q \<and> q < val}"
    using inv by (simp add: sieve_inv_def)
  have odd: "odd val" and ge: "11 \<le> val" using inv by (simp_all add: sieve_inv_def)
  have inv': "sieve_inv val' gens' \<and> (val' \<noteq> val \<longrightarrow> \<not> is_prime val)"
  proof (cases "current (getValue gens') = val")
    case True
    have "getValue gens' \<in> set (values_of gens')" by (rule getValue_in_values)
    with ok' have c: "cursor_ok val (getValue gens')" by blast
    then have "iter_value (getValue gens') dvd val" "2 \<le> iter_value (getValue gens')"
      "iter_value (getValue gens') < val"
      using True by (auto simp: cursor_ok_def current_def)
    then have np: "\<not> is_prime val" using is_primeD by blast
    have v: "val' = val + 2" using True by (simp add: val'_def)
    have "sieve_inv (val + 2) gens'"
      unfolding sieve_inv_def
    proof (intro conjI)
      show "odd (val + 2)" using odd by simp
      show "11 \<le> val + 2" using ge by simp
      show "adjacent_sorted comparator gens'" by (rule sorted')
      show "3 \<le> length (values_of gens')" by (rule len')
      show "\<forall>c\<in>set (values_of gens'). cursor_ok (val + 2) c"
        using ok' cursor_ok_mono [of val _ "val + 2"] by auto
      show "iter_value ` set (values_of gens') = {q. is_prime q \<and> 3 \<le> q \<and> q < val + 2}"
        using bases odd_primes_below_step [OF odd _ np] ge by simp
      show "current (getValue gens') \<noteq> val + 2" using True by simp
    qed
    with v np show ?thesis by simp
  next
    case False
    then have v: "val' = val" by (simp add: val'_def)
    have "sieve_inv val gens'"
      unfolding sieve_inv_def using odd ge sorted' len' ok' bases False by simp
    with v show ?thesis by simp
  qed
  have "mset (values_of gens') = add_mset (vi_next h) (mset (values_of rest))"
    by (simp add: gens'_def mset_values_insert)
  with inv' vals gens nxt gens'_def val'_def show ?thesis by simp
qed

lemma sift_total:
  assumes P: "is_prime P"
  shows "sieve_inv val gens \<Longrightarrow> val \<le> P \<Longrightarrow>
    \<exists>val' gens'. sift val gens = Some (Inr (val', gens')) \<and> sieve_inv val' gens'
      \<and> val \<le> val' \<and> val' \<le> P \<and> val' < current (getValue gens')
      \<and> (\<forall>v. val \<le> v \<and> v < val' \<longrightarrow> \<not> is_prime v)"
proof (induction "potential P val gens" arbitrary: val gens rule: less_induct)
  case less
  note inv = less.prems(1) and le = less.prems(2)
  show ?case
  proof (cases "current (getValue gens) < val")
    case False
    have "sift val gens = Some (Inr (val, gens))"
      using False by (subst sift.simps) simp
    moreover have "current (getValue gens) \<noteq> val" using inv by (simp add: sieve_inv_def)
    ultimately show ?thesis using False inv le by auto
  next
    case True
    from sift_step [OF inv True] obtain rest gens' val' where
      nxt: "getNext gens = Some rest"
      and gens': "gens' = insert_sll comparator rest (vi_next (getValue gens))"
      and val': "val' = (if current (getValue gens') = val then val + 2 else val)"
      and inv': "sieve_inv val' gens'"
      and np: "val' \<noteq> val \<longrightarrow> \<not> is_prime val"
      and m: "mset (values_of gens) = add_mset (getValue gens) (mset (values_of rest))"
      and m': "mset (values_of gens') = add_mset (vi_next (getValue gens)) (mset (values_of rest))"
      by blast
    have step: "sift val gens = sift val' gens'"
      using True nxt gens' val' by (subst sift.simps) (simp add: Let_def)
    have odd: "odd val" and ge: "11 \<le> val" using inv by (simp_all add: sieve_inv_def)
    have oddP: "odd P" using P le ge by (intro is_prime_odd) auto
    have le': "val' \<le> P"
    proof (cases "val' = val")
      case True
      with le show ?thesis by simp
    next
      case False
      with np have "val \<noteq> P" using P by auto
      with le have "val < P" by simp
      with odd oddP have "val + 2 \<le> P" by presburger
      with val' show ?thesis by (simp split: if_splits)
    qed
    have vv: "val \<le> val'" using val' by (simp split: if_splits)
    have h_ok: "cursor_ok val (getValue gens)"
      using inv getValue_in_values [of gens] by (simp add: sieve_inv_def)
    define a where "a = nat (P + iter_value (vi_next (getValue gens))
        - currentValue (vi_next (getValue gens)))"
    define b where "b = nat (P + iter_value (getValue gens) - currentValue (getValue gens))"
    define S where "S = (\<Sum>c\<in>#mset (values_of rest). nat (P + iter_value c - currentValue c))"
    have ab: "a < b"
      unfolding a_def b_def using h_ok True le
      by (simp add: vi_next_def cursor_ok_def current_def)
    have vle: "nat (P - val') \<le> nat (P - val)" using vv by simp
    have p1: "potential P val gens = nat (P - val) + (b + S)"
      by (simp add: potential_def m S_def b_def)
    have p2: "potential P val' gens' = nat (P - val') + (a + S)"
      by (simp add: potential_def m' S_def a_def)
    have "potential P val' gens' < potential P val gens"
      unfolding p1 p2 using ab vle by linarith
    from less.hyps [OF this inv' le'] obtain val'' gens'' where
      r: "sift val' gens' = Some (Inr (val'', gens''))" "sieve_inv val'' gens''"
        "val' \<le> val''" "val'' \<le> P" "val'' < current (getValue gens'')"
        "\<forall>v. val' \<le> v \<and> v < val'' \<longrightarrow> \<not> is_prime v"
      by blast
    have "\<not> is_prime v" if "val \<le> v" "v < val''" for v
    proof (cases "val' \<le> v")
      case True
      with r(6) that show ?thesis by simp
    next
      case False
      with that val' have "val' = val + 2" "v = val \<or> v = val + 1"
        by (auto split: if_splits)
      with np odd ge show ?thesis using even_not_prime [of "val + 1"] by auto
    qed
    with step r vv show ?thesis by auto
  qed
qed

section \<open>Insertion order\<close>

lemma lawful_sign: "lawful cmp \<Longrightarrow> sign_consistent cmp"
  by (simp add: lawful_def sign_consistent_def)

lemma lawful_linear:
  assumes "lawful cmp" and "\<not> cmp a b \<le> 0"
  shows "cmp b a \<le> 0"
proof -
  from assms(2) have "0 \<le> cmp a b" by simp
  with assms(1) show ?thesis unfolding lawful_def by blast
qed

lemma lawful_trans:
  assumes "lawful cmp" and "cmp a b \<le> 0" and "cmp b c \<le> 0"
  shows "cmp a c \<le> 0"
  using assms unfolding lawful_def by blast

lemma lawful_refl:
  assumes "lawful cmp"
  shows "cmp a a \<le> 0"
  using lawful_linear [OF assms, of a a] by blast

lemma rank_mono:
  assumes "lawful cmp" and "cmp a b \<le> 0"
  shows "rank cmp xs a \<le> rank cmp xs b"
  unfolding rank_def
proof (rule card_mono)
  show "finite {z \<in> set xs. \<not> cmp b z \<le> 0}" by simp
  show "{z \<in> set xs. \<not> cmp a z \<le> 0} \<subseteq> {z \<in> set xs. \<not> cmp b z \<le> 0}"
    using lawful_trans [OF assms(1) assms(2)] by blast
qed

lemma rank_strict:
  assumes "lawful cmp" and "\<not> cmp b a \<le> 0" and "a \<in> set xs"
  shows "rank cmp xs a < rank cmp xs b"
  unfolding rank_def
proof (rule psubset_card_mono)
  show "finite {z \<in> set xs. \<not> cmp b z \<le> 0}" by simp
  have ab: "cmp a b \<le> 0" using assms(1,2) by (rule lawful_linear)
  have sub: "{z \<in> set xs. \<not> cmp a z \<le> 0} \<subseteq> {z \<in> set xs. \<not> cmp b z \<le> 0}"
    using lawful_trans [OF assms(1) ab] by blast
  have "a \<in> {z \<in> set xs. \<not> cmp b z \<le> 0}" using assms(2,3) by simp
  moreover have "a \<notin> {z \<in> set xs. \<not> cmp a z \<le> 0}" using lawful_refl [OF assms(1)] by simp
  ultimately show "{z \<in> set xs. \<not> cmp a z \<le> 0} \<subset> {z \<in> set xs. \<not> cmp b z \<le> 0}"
    using sub by blast
qed

lemma rank_eq_tied:
  assumes "lawful cmp" and "rank cmp xs a = rank cmp xs b" and "a \<in> set xs" and "b \<in> set xs"
  shows "tied cmp a b"
proof -
  have "cmp a b \<le> 0"
  proof (rule ccontr)
    assume "\<not> cmp a b \<le> 0"
    from rank_strict [OF assms(1) this assms(4)] assms(2) show False by simp
  qed
  moreover have "cmp b a \<le> 0"
  proof (rule ccontr)
    assume "\<not> cmp b a \<le> 0"
    from rank_strict [OF assms(1) this assms(3)] assms(2) show False by simp
  qed
  ultimately show ?thesis by (simp add: tied_def)
qed

lemma values_of_link: "values_of (link v rest) = v # rest"
  by (induction rest arbitrary: v) auto

lemma mset_sort_insert: "mset (sort_insert cmp x ys) = add_mset x (mset ys)"
  by (induction ys) auto

lemma mset_js_sort: "mset (js_sort cmp xs) = mset xs"
  by (induction xs) (auto simp: mset_sort_insert)

lemma set_sort_insert: "set (sort_insert cmp x ys) = insert x (set ys)"
proof -
  have "set_mset (mset (sort_insert cmp x ys)) = set_mset (add_mset x (mset ys))"
    by (simp only: mset_sort_insert)
  then show ?thesis by simp
qed

lemma sorted_sort_insert:
  assumes "lawful cmp" and "sorted_wrt (\<lambda>a b. cmp a b \<le> 0) ys"
  shows "sorted_wrt (\<lambda>a b. cmp a b \<le> 0) (sort_insert cmp x ys)"
  using assms(2)
proof (induction ys)
  case Nil
  then show ?case by simp
next
  case (Cons y ys)
  show ?case
  proof (cases "cmp x y \<le> 0")
    case True
    have "cmp x z \<le> 0" if "z \<in> set ys" for z
    proof -
      from Cons.prems that have "cmp y z \<le> 0" by simp
      with True show ?thesis using lawful_trans [OF assms(1)] by blast
    qed
    with True Cons.prems show ?thesis by simp
  next
    case False
    then have yx: "cmp y x \<le> 0" using lawful_linear [OF assms(1)] by blast
    from Cons.prems have "sorted_wrt (\<lambda>a b. cmp a b \<le> 0) ys" by simp
    then have "sorted_wrt (\<lambda>a b. cmp a b \<le> 0) (sort_insert cmp x ys)" by (rule Cons.IH)
    moreover have "\<forall>z\<in>set (sort_insert cmp x ys). cmp y z \<le> 0"
      using yx Cons.prems by (simp add: set_sort_insert)
    ultimately show ?thesis using False by simp
  qed
qed

lemma sorted_js_sort:
  assumes "lawful cmp"
  shows "sorted_wrt (\<lambda>a b. cmp a b \<le> 0) (js_sort cmp xs)"
  by (induction xs) (simp_all add: sorted_sort_insert [OF assms])

lemma getValue_hd: "getValue l = hd (values_of l)"
  by (cases l) (simp add: values_of_node)

lemma adjacent_sorted_wrt:
  assumes "lawful cmp" and "adjacent_sorted cmp l"
  shows "sorted_wrt (\<lambda>a b. cmp a b \<le> 0) (values_of l)"
  using assms(2)
proof (induction l)
  case (Node v nxt)
  show ?case
  proof (cases nxt)
    case None
    then show ?thesis by simp
  next
    case (Some n)
    have n: "n \<in> set_option nxt" using Some by simp
    from Node.prems Some have vn: "cmp v (getValue n) \<le> 0" and sn: "adjacent_sorted cmp n"
      by simp_all
    from Node.IH [OF n sn] have s: "sorted_wrt (\<lambda>a b. cmp a b \<le> 0) (values_of n)" .
    obtain h t where ht: "values_of n = h # t" by (cases n) (simp add: values_of_node)
    then have h: "getValue n = h" by (simp add: getValue_hd)
    have "cmp v z \<le> 0" if "z \<in> set (values_of n)" for z
    proof (cases "z = h")
      case True
      with vn h show ?thesis by simp
    next
      case False
      with that ht have "z \<in> set t" by simp
      with s ht have "cmp h z \<le> 0" by simp
      with vn h show ?thesis using lawful_trans [OF assms(1)] by blast
    qed
    with s Some show ?thesis by simp
  qed
qed

lemma insert_each_sorted:
  assumes "sign_consistent cmp" and "adjacent_sorted cmp l"
  shows "adjacent_sorted cmp (insert_each cmp l vs)"
  using assms(2)
proof (induction vs arbitrary: l)
  case Nil
  then show ?case by simp
next
  case (Cons v vs)
  from assms(1) Cons.prems have "adjacent_sorted cmp (insert_sll cmp l v)" by (rule sorted_insert)
  then show ?case using Cons.IH by simp
qed

lemma mset_insert_each:
  "mset (values_of (insert_each cmp l vs)) = mset (values_of l) + mset vs"
  by (induction vs arbitrary: l) (simp_all add: mset_values_insert)

text \<open>
  Two ascending arrangements of one multiset agree position by position, up to ties.
\<close>

lemma sorted_tied:
  assumes law: "lawful cmp"
    and sx: "sorted_wrt (\<lambda>a b. cmp a b \<le> 0) xs"
    and sy: "sorted_wrt (\<lambda>a b. cmp a b \<le> 0) ys"
    and m: "mset xs = mset ys"
  shows "list_all2 (tied cmp) xs ys"
proof -
  define r where "r = rank cmp xs"
  have mono: "r a \<le> r b" if "cmp a b \<le> 0" for a b
    unfolding r_def using law that by (rule rank_mono)
  have "sorted_wrt (\<lambda>a b. r a \<le> r b) xs"
    using sx mono by (rule sorted_wrt_mono_rel [rotated]) 
  then have s1: "sorted (map r xs)" by (simp add: sorted_map)
  have "sorted_wrt (\<lambda>a b. r a \<le> r b) ys"
    using sy mono by (rule sorted_wrt_mono_rel [rotated])
  then have s2: "sorted (map r ys)" by (simp add: sorted_map)
  have mm: "mset (map r ys) = mset (map r xs)" using m by simp
  have "sort (map r xs) = map r ys" using mm s2 by (rule properties_for_sort)
  moreover have "sort (map r xs) = map r xs" using s1 by (rule sorted_sort_id)
  ultimately have eq: "map r xs = map r ys" by simp
  have len: "length xs = length ys" using m by (rule mset_eq_length)
  have sets: "set ys = set xs" using m by (metis set_mset_mset)
  show ?thesis
  proof (rule list_all2_all_nthI [OF len])
    fix n assume n: "n < length xs"
    then have "map r xs ! n = r (xs ! n)" by simp
    moreover have "map r ys ! n = r (ys ! n)" using n len by simp
    ultimately have "rank cmp xs (xs ! n) = rank cmp xs (ys ! n)" using eq by (simp add: r_def)
    moreover have "xs ! n \<in> set xs" using n by simp
    moreover have "ys ! n \<in> set xs" using n len sets by (metis nth_mem)
    ultimately show "tied cmp (xs ! n) (ys ! n)" using law by (intro rank_eq_tied)
  qed
qed

lemma tied_antisym_eq:
  assumes "list_all2 (tied cmp) xs ys" and "\<forall>a b. tied cmp a b \<longrightarrow> a = b"
  shows "xs = ys"
proof -
  have "list_all2 (=) xs ys"
    using assms by (auto elim: list_all2_mono)
  then show ?thesis by (simp add: list_all2_eq)
qed

text \<open>
  C8, as the claim states it, fails on values that tie without being equal: the
  generators of 3 and of 5, both at 15, come out in the order of insertion, so two
  permutations of the same two values give two different sequences, and one of them is
  not what the direct sort of the values gives.
\<close>

theorem tied_values_keep_insertion_order:
  "mset [ValuedIterator 5 15, ValuedIterator 3 15] = mset [ValuedIterator 3 15, ValuedIterator 5 15]
   \<and> create comparator [ValuedIterator 5 15] = Chain (Node (ValuedIterator 5 15) None)
   \<and> create comparator [ValuedIterator 3 15] = Chain (Node (ValuedIterator 3 15) None)
   \<and> values_of (insert_each comparator (Node (ValuedIterator 5 15) None) [ValuedIterator 3 15])
       = [ValuedIterator 5 15, ValuedIterator 3 15]
   \<and> values_of (insert_each comparator (Node (ValuedIterator 3 15) None) [ValuedIterator 5 15])
       = [ValuedIterator 3 15, ValuedIterator 5 15]
   \<and> js_sort comparator [ValuedIterator 3 15, ValuedIterator 5 15]
       = [ValuedIterator 3 15, ValuedIterator 5 15]"
  by (simp add: insert_sll_def comparator_def current_def create_def)

text \<open>
  C8, amended: for a comparator that keeps the \<^verbatim>\<open>Comparator\<close> contract, building a list
  by \<^verbatim>\<open>create\<close> on the first value of any permutation and \<^verbatim>\<open>insert\<close> of the others, and
  then reading it from the head on, gives the values of the multiset in ascending order;
  that sequence agrees position by position, up to ties, with the values sorted directly
  with the comparator (which is what \<^verbatim>\<open>create\<close> on all the values holds), and is the
  same sequence when the comparator ties only equal values.
\<close>

theorem insertion_order_matters_only_among_ties:
  assumes "lawful cmp" and "mset (y # ys) = mset xs"
  shows "\<exists>l s. create cmp [y] = Chain l \<and> create cmp xs = Chain s
       \<and> values_of s = js_sort cmp xs
       \<and> sorted_wrt (\<lambda>a b. cmp a b \<le> 0) (js_sort cmp xs)
       \<and> mset (js_sort cmp xs) = mset xs
       \<and> sorted_wrt (\<lambda>a b. cmp a b \<le> 0) (values_of (insert_each cmp l ys))
       \<and> mset (values_of (insert_each cmp l ys)) = mset xs
       \<and> list_all2 (tied cmp) (values_of (insert_each cmp l ys)) (js_sort cmp xs)
       \<and> ((\<forall>a b. tied cmp a b \<longrightarrow> a = b)
            \<longrightarrow> values_of (insert_each cmp l ys) = js_sort cmp xs)"
proof -
  define built where "built = values_of (insert_each cmp (Node y None) ys)"
  have c1: "create cmp [y] = Chain (Node y None)" by (simp add: create_def)
  have md: "mset (js_sort cmp xs) = mset xs" by (rule mset_js_sort)
  then have "mset (js_sort cmp xs) = mset (y # ys)" using assms(2) by simp
  then have "js_sort cmp xs \<noteq> []" by auto
  then obtain v rest where vr: "js_sort cmp xs = v # rest" by (cases "js_sort cmp xs") auto
  then have c2: "create cmp xs = Chain (link v rest)" by (simp add: create_def)
  have v2: "values_of (link v rest) = js_sort cmp xs" by (simp only: vr values_of_link)
  have sorted_direct: "sorted_wrt (\<lambda>a b. cmp a b \<le> 0) (js_sort cmp xs)"
    using assms(1) by (rule sorted_js_sort)
  have "adjacent_sorted cmp (Node y None)" by simp
  with lawful_sign [OF assms(1)]
  have "adjacent_sorted cmp (insert_each cmp (Node y None) ys)" by (rule insert_each_sorted)
  with assms(1) have sorted_built: "sorted_wrt (\<lambda>a b. cmp a b \<le> 0) built"
    unfolding built_def by (rule adjacent_sorted_wrt)
  have "mset built = mset (y # ys)" by (simp add: built_def mset_insert_each)
  then have mb: "mset built = mset xs" using assms(2) by simp
  then have "mset built = mset (js_sort cmp xs)" using md by simp
  with assms(1) sorted_built sorted_direct
  have t: "list_all2 (tied cmp) built (js_sort cmp xs)" by (rule sorted_tied)
  have e: "(\<forall>a b. tied cmp a b \<longrightarrow> a = b) \<longrightarrow> built = js_sort cmp xs"
    using tied_antisym_eq [OF t] by blast
  have "create cmp [y] = Chain (Node y None) \<and> create cmp xs = Chain (link v rest)
       \<and> values_of (link v rest) = js_sort cmp xs
       \<and> sorted_wrt (\<lambda>a b. cmp a b \<le> 0) (js_sort cmp xs)
       \<and> mset (js_sort cmp xs) = mset xs
       \<and> sorted_wrt (\<lambda>a b. cmp a b \<le> 0) built
       \<and> mset built = mset xs
       \<and> list_all2 (tied cmp) built (js_sort cmp xs)
       \<and> ((\<forall>a b. tied cmp a b \<longrightarrow> a = b) \<longrightarrow> built = js_sort cmp xs)"
    using c1 c2 v2 sorted_direct md sorted_built mb t e by (intro conjI)
  then show ?thesis unfolding built_def by (intro exI)
qed

theorem insertion_order_matters_only_among_ties_witness:
  "lawful (\<lambda>a b :: int. a - b) \<and> mset (3 # [1, 2 :: int]) = mset [2, 3, 1]
   \<and> create (\<lambda>a b :: int. a - b) [3] = Chain (Node 3 None)
   \<and> values_of (insert_each (\<lambda>a b :: int. a - b) (Node 3 None) [1, 2]) = [1, 2, 3]
   \<and> js_sort (\<lambda>a b :: int. a - b) [2, 3, 1] = [1, 2, 3]"
proof -
  have h1: "lawful (\<lambda>a b :: int. a - b)" by (simp add: lawful_def)
  have h2: "mset (3 # [1, 2 :: int]) = mset [2, 3, 1]" by simp
  have anti: "\<forall>a b :: int. tied (\<lambda>a b. a - b) a b \<longrightarrow> a = b" by (simp add: tied_def)
  have c: "create (\<lambda>a b :: int. a - b) [3] = Chain (Node 3 None)" by (simp add: create_def)
  have j: "js_sort (\<lambda>a b :: int. a - b) [2, 3, 1] = [1, 2, 3]" by simp
  from insertion_order_matters_only_among_ties [OF h1 h2] c anti
  have "values_of (insert_each (\<lambda>a b :: int. a - b) (Node 3 None) [1, 2])
      = js_sort (\<lambda>a b :: int. a - b) [2, 3, 1]" by auto
  with h1 h2 c j show ?thesis by simp
qed

section \<open>The generator, call by call\<close>

lemma create_seeds:
  "create comparator [new_ValuedIterator 3, new_ValuedIterator 5, new_ValuedIterator 7]
     = Chain seed_gens"
  by (simp add: create_def seed_gens_def comparator_def current_def new_ValuedIterator_def)

lemma small_primes: "{q. is_prime q \<and> 3 \<le> q \<and> q < 11} = {3, 5, 7}"
proof -
  have yes: "is_prime 3" "is_prime 5" "is_prime 7" by code_simp+
  have no: "\<not> is_prime 4" "\<not> is_prime 6" "\<not> is_prime 8" "\<not> is_prime 9" "\<not> is_prime 10"
    by code_simp+
  have "q = 3 \<or> q = 4 \<or> q = 5 \<or> q = 6 \<or> q = 7 \<or> q = 8 \<or> q = 9 \<or> q = 10"
    if "3 \<le> q" "q < 11" for q :: int
    using that by arith
  with yes no show ?thesis by auto
qed

lemma sieve_inv_seeds: "sieve_inv 11 seed_gens"
  unfolding sieve_inv_def
  by (simp add: small_primes seed_gens_def comparator_def current_def new_ValuedIterator_def
      cursor_ok_def)

lemma sieve_after_yield:
  assumes inv: "sieve_inv val gens" and above: "val < current (getValue gens)"
  shows "sieve_inv (val + 2) (insert_sll comparator gens (new_ValuedIterator val))"
proof -
  have p: "is_prime val" using inv above by (intro sieve_exit_prime) auto
  have odd: "odd val" and ge: "11 \<le> val" using inv by (simp_all add: sieve_inv_def)
  have np1: "\<not> is_prime (val + 1)" using odd ge by (intro even_not_prime) auto
  have primes: "{q. is_prime q \<and> 3 \<le> q \<and> q < val + 2}
      = insert val {q. is_prime q \<and> 3 \<le> q \<and> q < val}"
  proof (intro set_eqI iffI)
    fix q assume "q \<in> {q. is_prime q \<and> 3 \<le> q \<and> q < val + 2}"
    then have q: "is_prime q" "3 \<le> q" "q < val + 2" by simp_all
    from q(3) have "q < val \<or> q = val \<or> q = val + 1" by arith
    with q(1) np1 have "q < val \<or> q = val" by blast
    with q(1,2) show "q \<in> insert val {q. is_prime q \<and> 3 \<le> q \<and> q < val}" by blast
  next
    fix q assume "q \<in> insert val {q. is_prime q \<and> 3 \<le> q \<and> q < val}"
    then have "q = val \<or> (is_prime q \<and> 3 \<le> q \<and> q < val)" by simp
    then show "q \<in> {q. is_prime q \<and> 3 \<le> q \<and> q < val + 2}"
    proof
      assume "q = val"
      with p ge show ?thesis by simp
    next
      assume "is_prime q \<and> 3 \<le> q \<and> q < val"
      then show ?thesis by simp
    qed
  qed
  have head: "getValue (insert_sll comparator gens (new_ValuedIterator val)) = new_ValuedIterator val"
    using above by (simp add: getValue_insert comparator_def current_def new_ValuedIterator_def)
  show ?thesis
    unfolding sieve_inv_def
  proof (intro conjI)
    show "odd (val + 2)" using odd by simp
    show "11 \<le> val + 2" using ge by simp
    show "adjacent_sorted comparator (insert_sll comparator gens (new_ValuedIterator val))"
      using sign_consistent_comparator inv by (intro sorted_insert) (simp_all add: sieve_inv_def)
    show "3 \<le> length (values_of (insert_sll comparator gens (new_ValuedIterator val)))"
      using inv by (simp add: length_values_insert sieve_inv_def)
    have "cursor_ok (val + 2) (new_ValuedIterator val)"
      using ge by (simp add: cursor_ok_def new_ValuedIterator_def)
    moreover have "cursor_ok (val + 2) c" if "c \<in> set (values_of gens)" for c
      using inv that cursor_ok_mono [of val c "val + 2"] by (simp add: sieve_inv_def)
    ultimately show "\<forall>c\<in>set (values_of (insert_sll comparator gens (new_ValuedIterator val))).
        cursor_ok (val + 2) c"
      by (simp add: set_values_insert)
    show "iter_value ` set (values_of (insert_sll comparator gens (new_ValuedIterator val)))
        = {q. is_prime q \<and> 3 \<le> q \<and> q < val + 2}"
      using inv by (simp add: set_values_insert primes sieve_inv_def new_ValuedIterator_def)
    show "current (getValue (insert_sll comparator gens (new_ValuedIterator val))) \<noteq> val + 2"
      unfolding head by (simp add: current_def new_ValuedIterator_def)
  qed
qed

lemma loop_turn_spec:
  assumes inv: "sieve_inv val gens"
    and f: "8 \<le> f" "f \<le> val" "\<forall>q. f \<le> q \<and> q < val \<longrightarrow> \<not> is_prime q"
  shows "\<exists>r g'. loop_turn g val gens = Some (Inr (r, g')) \<and> step_ok f g r g'"
proof -
  obtain P where P: "is_prime P" "val \<le> P" using primes_unbounded by blast
  from sift_total [OF P(1) inv P(2)] obtain val' gens' where
    s: "sift val gens = Some (Inr (val', gens'))" and inv': "sieve_inv val' gens'"
    and le: "val \<le> val'" and above: "val' < current (getValue gens')"
    and none: "\<forall>v. val \<le> v \<and> v < val' \<longrightarrow> \<not> is_prime v"
    by blast
  have p: "is_prime val'" using inv' above by (intro sieve_exit_prime) auto
  have least: "\<forall>q. is_prime q \<and> f \<le> q \<longrightarrow> val' \<le> q"
  proof (intro allI impI)
    fix q assume q: "is_prime q \<and> f \<le> q"
    show "val' \<le> q"
    proof (rule ccontr)
      assume "\<not> val' \<le> q"
      then have lt: "q < val'" by simp
      show False
      proof (cases "val \<le> q")
        case True
        with none lt q show False by blast
      next
        case False
        then have "q < val" by simp
        with f(3) q show False by blast
      qed
    qed
  qed
  have fle: "f \<le> val'" using f(2) le by simp
  have inv_y: "state_inv (AtYieldValue val' gens')" using inv' above by simp
  show ?thesis
  proof (cases "case maxValue g of None \<Rightarrow> False | Some m \<Rightarrow> val' \<ge> m")
    case True
    then obtain B where B: "maxValue g = Some B" "B \<le> val'" by (auto split: option.splits)
    have l: "loop_turn g val gens = Some (Inr (None, g\<lparr>state := Finished\<rparr>))"
      using s True by (simp add: loop_turn_def)
    have "\<forall>q. is_prime q \<and> f \<le> q \<longrightarrow> B \<le> q"
    proof (intro allI impI)
      fix q assume "is_prime q \<and> f \<le> q"
      with least have "val' \<le> q" by blast
      with B(2) show "B \<le> q" by simp
    qed
    then have "\<exists>B. maxValue g = Some B \<and> 8 \<le> f \<and> (\<forall>q. is_prime q \<and> f \<le> q \<longrightarrow> B \<le> q)"
      using B(1) f(1) by blast
    then have "step_ok f g None (g\<lparr>state := Finished\<rparr>)"
      unfolding step_ok_def by simp
    with l show ?thesis by blast
  next
    case False
    have l: "loop_turn g val gens = Some (Inr (Some val', g\<lparr>state := AtYieldValue val' gens'\<rparr>))"
      using s False by (simp add: loop_turn_def)
    have nb: "\<forall>B. maxValue g = Some B \<longrightarrow> val' < B" using False by auto
    have "step_ok f g (Some val') (g\<lparr>state := AtYieldValue val' gens'\<rparr>)"
      unfolding step_ok_def option.case
    proof (intro conjI)
      show "maxValue (g\<lparr>state := AtYieldValue val' gens'\<rparr>) = maxValue g" by simp
      show "state_inv (state (g\<lparr>state := AtYieldValue val' gens'\<rparr>))" using inv_y by simp
      show "is_prime val'" by (rule p)
      show "f \<le> val'" by (rule fle)
      show "\<forall>q. is_prime q \<and> f \<le> q \<longrightarrow> val' \<le> q" by (rule least)
      show "frontier (state (g\<lparr>state := AtYieldValue val' gens'\<rparr>)) = val' + 1" by simp
      show "state (g\<lparr>state := AtYieldValue val' gens'\<rparr>) \<noteq> Finished" by simp
      show "8 \<le> f \<longrightarrow> (\<forall>B. maxValue g = Some B \<longrightarrow> val' < B)" using nb by blast
    qed
    with l show ?thesis by blast
  qed
qed

text \<open>
  Every \<^verbatim>\<open>next()\<close> on a generator in a good state returns, without an error, and does
  what \<open>step_ok\<close> says.
\<close>

lemma gen_next_spec:
  assumes inv: "state_inv (state g)"
  shows "\<exists>r g'. gen_next g = Some (Inr (r, g')) \<and> step_ok (frontier (state g)) g r g'"
proof (cases "state g")
  case Start
  have "is_prime 2" by code_simp
  with Start show ?thesis by (simp add: gen_next_def create_seeds step_ok_def)
next
  case (AtYield2 val c)
  have "is_prime 3" by code_simp
  with AtYield2 inv show ?thesis by (simp add: gen_next_def step_ok_def)
next
  case (AtYield3 val c)
  have "is_prime 5" "\<not> is_prime 4" by code_simp+
  moreover have "5 \<le> q" if "is_prime q" "4 \<le> q" for q
    using that \<open>\<not> is_prime 4\<close> by (cases "q = 4") auto
  ultimately show ?thesis using AtYield3 inv by (simp add: gen_next_def step_ok_def)
next
  case (AtYield5 val c)
  have "is_prime 7" "\<not> is_prime 6" by code_simp+
  moreover have "7 \<le> q" if "is_prime q" "6 \<le> q" for q
    using that \<open>\<not> is_prime 6\<close> by (cases "q = 6") auto
  ultimately show ?thesis using AtYield5 inv by (simp add: gen_next_def step_ok_def)
next
  case (AtYield7 val c)
  have no: "\<not> is_prime 8" "\<not> is_prime 9" "\<not> is_prime 10" by code_simp+
  have gap: "\<forall>q. 8 \<le> q \<and> q < 11 \<longrightarrow> \<not> is_prime q"
  proof (intro allI impI)
    fix q :: int assume "8 \<le> q \<and> q < 11"
    then have "q = 8 \<or> q = 9 \<or> q = 10" by arith
    with no show "\<not> is_prime q" by auto
  qed
  from AtYield7 inv have n: "gen_next g = loop_turn g 11 seed_gens"
    by (simp add: gen_next_def)
  have f: "frontier (state g) = 8" using AtYield7 by simp
  show ?thesis
    unfolding n f by (rule loop_turn_spec [OF sieve_inv_seeds _ _ gap]) simp_all
next
  case (AtYieldValue val gens)
  with inv have i: "sieve_inv val gens" "val < current (getValue gens)" by simp_all
  have ge: "11 \<le> val" and odd: "odd val" using i(1) by (simp_all add: sieve_inv_def)
  have no: "\<not> is_prime (val + 1)" using odd ge by (intro even_not_prime) auto
  have gap: "\<forall>q. val + 1 \<le> q \<and> q < val + 2 \<longrightarrow> \<not> is_prime q"
  proof (intro allI impI)
    fix q :: int assume "val + 1 \<le> q \<and> q < val + 2"
    then have "q = val + 1" by arith
    with no show "\<not> is_prime q" by auto
  qed
  from AtYieldValue have n: "gen_next g
      = loop_turn g (val + 2) (insert_sll comparator gens (new_ValuedIterator val))"
    by (simp add: gen_next_def)
  have f: "frontier (state g) = val + 1" using AtYieldValue by simp
  show ?thesis
    unfolding n f using ge by (intro loop_turn_spec [OF sieve_after_yield [OF i] _ _ gap]) simp_all
next
  case Finished
  then show ?thesis by (simp add: gen_next_def step_ok_def)
qed

section \<open>Consumers of the generator\<close>

lemma filter_primes_none:
  assumes "\<forall>q. is_prime q \<and> f \<le> q \<longrightarrow> B \<le> q"
  shows "filter is_prime [f..B - 1] = []"
proof -
  have "\<not> is_prime q" if "q \<in> set [f..B - 1]" for q
  proof
    assume "is_prime q"
    with assms that have "B \<le> q" by simp
    with that show False by simp
  qed
  then show ?thesis by (simp add: filter_empty_conv)
qed

lemma filter_primes_split:
  assumes v: "is_prime v" "f \<le> v" "v \<le> b"
    and least: "\<forall>q. is_prime q \<and> f \<le> q \<longrightarrow> v \<le> q"
  shows "filter is_prime [f..b] = v # filter is_prime [v + 1..b]"
proof -
  have "\<not> is_prime q" if "q \<in> set [f..v - 1]" for q
  proof
    assume "is_prime q"
    with least that have "v \<le> q" by simp
    with that show False by simp
  qed
  then have "filter is_prime [f..v - 1] = []" by (simp add: filter_empty_conv)
  moreover have "[f..b] = [f..v - 1] @ v # [v + 1..b]"
    using v(2,3) by (rule upto_split3)
  ultimately show ?thesis using v(1) by simp
qed

lemma gen_all_sieve:
  assumes "state_inv (state g)" and "maxValue g = Some B" and "state g \<noteq> Finished"
    and "8 \<le> frontier (state g)"
  shows "gen_all g = Some (Inr (filter is_prime [frontier (state g)..B - 1]))"
  using assms
proof (induction "nat (B - frontier (state g))" arbitrary: g rule: less_induct)
  case less
  from gen_next_spec [OF less.prems(1)] obtain r g' where
    n: "gen_next g = Some (Inr (r, g'))" and ok: "step_ok (frontier (state g)) g r g'"
    by blast
  show ?case
  proof (cases r)
    case None
    with ok less.prems have "\<forall>q. is_prime q \<and> frontier (state g) \<le> q \<longrightarrow> B \<le> q"
      by (simp add: step_ok_def)
    then have "filter is_prime [frontier (state g)..B - 1] = []"
      by (rule filter_primes_none)
    moreover have "gen_all g = Some (Inr [])"
      using n None by (subst gen_all.simps) simp
    ultimately show ?thesis by simp
  next
    case (Some v)
    with ok less.prems have v: "is_prime v" "frontier (state g) \<le> v"
      "\<forall>q. is_prime q \<and> frontier (state g) \<le> q \<longrightarrow> v \<le> q" "v < B"
      and g': "maxValue g' = Some B" "state_inv (state g')" "frontier (state g') = v + 1"
        "state g' \<noteq> Finished"
      by (simp_all add: step_ok_def)
    have m: "nat (B - frontier (state g')) < nat (B - frontier (state g))"
      using v(2,4) g'(3) by simp
    have f8: "8 \<le> frontier (state g')" using v(2) g'(3) less.prems(4) by simp
    from less.hyps [OF m g'(2) g'(1) g'(4) f8]
    have rest: "gen_all g' = Some (Inr (filter is_prime [v + 1..B - 1]))"
      by (simp add: g'(3))
    have "gen_all g = Some (Inr (v # filter is_prime [v + 1..B - 1]))"
      using n Some rest by (subst gen_all.simps) simp
    moreover have "filter is_prime [frontier (state g)..B - 1] = v # filter is_prime [v + 1..B - 1]"
      using v by (intro filter_primes_split) simp_all
    ultimately show ?thesis by simp
  qed
qed

text \<open>
  The whole output of the generator with a bound: the four seeds, then every prime from
  the first candidate up to but not including the bound, in ascending order.
\<close>

lemma gen_all_bounded:
  "gen_all (primeGenerator (Some B)) = Some (Inr ([2, 3, 5, 7] @ filter is_prime [8..B - 1]))"
proof -
  define g where "g s = \<lparr>maxValue = Some B, state = s\<rparr>" for s
  have 4: "gen_all (g (AtYield7 11 (Chain seed_gens))) = Some (Inr (filter is_prime [8..B - 1]))"
    using gen_all_sieve [of "g (AtYield7 11 (Chain seed_gens))" B] by (simp add: g_def)
  have 3: "gen_all (g (AtYield5 11 (Chain seed_gens))) = Some (Inr (7 # filter is_prime [8..B - 1]))"
    using 4 by (subst gen_all.simps) (simp add: gen_next_def g_def)
  have 2: "gen_all (g (AtYield3 11 (Chain seed_gens)))
      = Some (Inr (5 # 7 # filter is_prime [8..B - 1]))"
    using 3 by (subst gen_all.simps) (simp add: gen_next_def g_def)
  have 1: "gen_all (g (AtYield2 11 (Chain seed_gens)))
      = Some (Inr (3 # 5 # 7 # filter is_prime [8..B - 1]))"
    using 2 by (subst gen_all.simps) (simp add: gen_next_def g_def)
  have "gen_all (g Start) = Some (Inr (2 # 3 # 5 # 7 # filter is_prime [8..B - 1]))"
    using 1 by (subst gen_all.simps) (simp add: gen_next_def g_def create_seeds)
  then show ?thesis by (simp add: g_def primeGenerator_def)
qed

lemma gen_all_Inr:
  assumes "gen_all g = Some (Inr ys)"
  shows "(\<exists>g'. gen_next g = Some (Inr (None, g')) \<and> ys = [])
       \<or> (\<exists>v g' vs. gen_next g = Some (Inr (Some v, g')) \<and> gen_all g' = Some (Inr vs)
             \<and> ys = v # vs)"
proof (cases "gen_next g")
  case None
  with assms show ?thesis by (subst (asm) gen_all.simps) simp
next
  case (Some x)
  show ?thesis
  proof (cases x)
    case (Inl e)
    with Some assms show ?thesis by (subst (asm) gen_all.simps) simp
  next
    case (Inr p)
    obtain r g' where p: "p = (r, g')" by (cases p)
    show ?thesis
    proof (cases r)
      case None
      with Some Inr p assms show ?thesis by (subst (asm) gen_all.simps) simp
    next
      case r: (Some v)
      show ?thesis
      proof (cases "gen_all g'")
        case None
        with Some Inr p r assms show ?thesis by (subst (asm) gen_all.simps) simp
      next
        case all: (Some y)
        show ?thesis
        proof (cases y)
          case (Inl e)
          with Some Inr p r all assms show ?thesis by (subst (asm) gen_all.simps) simp
        next
          case vs: (Inr vs)
          with Some Inr p r all assms show ?thesis by (subst (asm) gen_all.simps) simp
        qed
      qed
    qed
  qed
qed

text \<open>
  The \<^verbatim>\<open>for ... of\<close> loop of \<^verbatim>\<open>primeFactors\<close> over a generator that ends: it returns the
  first of the generator's values that divides \<open>val\<close>.
\<close>

lemma find_factor_gen_all:
  assumes "gen_all g = Some (Inr ys)"
  shows "find_factor val g = Some (Inr (List.find (rem_is_zero val) ys))"
  using assms
proof (induction ys arbitrary: g)
  case Nil
  from gen_all_Inr [OF Nil] obtain g' where "gen_next g = Some (Inr (None, g'))" by auto
  then show ?case by (subst find_factor.simps) simp
next
  case (Cons y ys)
  from gen_all_Inr [OF Cons.prems] obtain g' where
    g': "gen_next g = Some (Inr (Some y, g'))" "gen_all g' = Some (Inr ys)" by auto
  from Cons.IH [OF g'(2)] g'(1) show ?case
    by (subst find_factor.simps) simp
qed

lemma gen_take_spec:
  assumes "state_inv (state g)"
  shows "\<exists>ys. gen_take n g = Some (Inr ys)
     \<and> (\<forall>v\<in>set ys. frontier (state g) \<le> v \<and> is_prime v)"
  using assms
proof (induction n arbitrary: g)
  case 0
  then show ?case by simp
next
  case (Suc n)
  from gen_next_spec [OF Suc.prems] obtain r g' where
    n: "gen_next g = Some (Inr (r, g'))" and ok: "step_ok (frontier (state g)) g r g'"
    by blast
  show ?case
  proof (cases r)
    case None
    with n show ?thesis by simp
  next
    case (Some v)
    with ok have v: "is_prime v" "frontier (state g) \<le> v"
      and g': "state_inv (state g')" "frontier (state g') = v + 1"
      by (simp_all add: step_ok_def)
    from Suc.IH [OF g'(1)] obtain ys where
      ys: "gen_take n g' = Some (Inr ys)" "\<forall>w\<in>set ys. frontier (state g') \<le> w \<and> is_prime w"
      by blast
    have "gen_take (Suc n) g = Some (Inr (v # ys))" using n Some ys(1) by simp
    moreover have "\<forall>w\<in>set (v # ys). frontier (state g) \<le> w \<and> is_prime w"
      using v ys(2) g'(2) by auto
    ultimately show ?thesis by blast
  qed
qed

section \<open>Runs of the generator on concrete bounds\<close>

text \<open>
  C5: the first 10 values of \<^verbatim>\<open>primeGenerator\<close> without a bound are
  2, 3, 5, 7, 11, 13, 17, 19, 23, 29.
\<close>

theorem first_ten_primes:
  "gen_take 10 (primeGenerator None) = Some (Inr [2, 3, 5, 7, 11, 13, 17, 19, 23, 29])"
  by code_simp

text \<open>
  C1 at the bound 5 (the call that \<^verbatim>\<open>primeFactors(25)\<close> makes): the generator produces
  2, 3, 5, 7 and ends. The claim, like the docstring's exclusive maximum, allows only 2
  and 3: the seeds 5 and 7 are yielded although they are not below the bound.
\<close>

theorem primeGenerator_5_yields_seeds_above_bound:
  "gen_all (primeGenerator (Some 5)) = Some (Inr [2, 3, 5, 7])"
  by code_simp

text \<open>
  C2 at the bounds 0, 2 and 3 (the calls that \<^verbatim>\<open>primeFactors\<close> makes on 0, 4 and 9): the
  generator produces 2, 3, 5, 7 and ends. The claim says that the sequence is empty, and
  the docstring's exclusive maximum allows no value for the bounds 0 and 2: the seeds are
  yielded before the bound is looked at.
\<close>

theorem primeGenerator_0_not_empty:
  "gen_all (primeGenerator (Some 0)) = Some (Inr [2, 3, 5, 7])
   \<and> gen_all (primeGenerator (Some 2)) = Some (Inr [2, 3, 5, 7])
   \<and> gen_all (primeGenerator (Some 3)) = Some (Inr [2, 3, 5, 7])"
  by code_simp

section \<open>Seeds and small bounds\<close>

text \<open>
  C6: whatever the bound argument, the first four calls yield the seeds 2, 3, 5, 7, and
  no later call yields one of them: every value that the loop produces is 11 or more.
\<close>

theorem seeds_first_and_only_once:
  "gen_take 4 (primeGenerator mv) = Some (Inr [2, 3, 5, 7])
   \<and> (\<exists>ys. gen_take (4 + n) (primeGenerator mv) = Some (Inr ([2, 3, 5, 7] @ ys))
          \<and> (\<forall>v\<in>set ys. 11 \<le> v \<and> v \<notin> {2, 3, 5, 7}))"
proof -
  define g where "g s = \<lparr>maxValue = mv, state = s\<rparr>" for s
  have s0: "gen_next (g Start) = Some (Inr (Some 2, g (AtYield2 11 (Chain seed_gens))))"
    by (simp add: gen_next_def g_def create_seeds)
  have s1: "gen_next (g (AtYield2 11 (Chain seed_gens)))
      = Some (Inr (Some 3, g (AtYield3 11 (Chain seed_gens))))"
    by (simp add: gen_next_def g_def)
  have s2: "gen_next (g (AtYield3 11 (Chain seed_gens)))
      = Some (Inr (Some 5, g (AtYield5 11 (Chain seed_gens))))"
    by (simp add: gen_next_def g_def)
  have s3: "gen_next (g (AtYield5 11 (Chain seed_gens)))
      = Some (Inr (Some 7, g (AtYield7 11 (Chain seed_gens))))"
    by (simp add: gen_next_def g_def)
  have four: "4 + n = Suc (Suc (Suc (Suc n)))" by simp
  have n4: "(4::nat) = Suc (Suc (Suc (Suc 0)))" by simp
  have first: "gen_take 4 (g Start) = Some (Inr [2, 3, 5, 7])"
    unfolding n4 by (simp add: s0 s1 s2 s3)
  have "state_inv (state (g (AtYield7 11 (Chain seed_gens))))" by (simp add: g_def)
  from gen_take_spec [OF this, of n] obtain ys where
    ys: "gen_take n (g (AtYield7 11 (Chain seed_gens))) = Some (Inr ys)"
      "\<forall>v\<in>set ys. 8 \<le> v \<and> is_prime v"
    by (auto simp: g_def)
  have no: "\<not> is_prime 8" "\<not> is_prime 9" "\<not> is_prime 10" by code_simp+
  have "11 \<le> v \<and> v \<notin> {2, 3, 5, 7}" if "v \<in> set ys" for v
  proof -
    from ys(2) that have v: "8 \<le> v" "is_prime v" by simp_all
    from v(1) have "v = 8 \<or> v = 9 \<or> v = 10 \<or> 11 \<le> v" by arith
    with v(2) no have "11 \<le> v" by blast
    then show ?thesis by simp
  qed
  moreover have "gen_take (4 + n) (g Start) = Some (Inr ([2, 3, 5, 7] @ ys))"
    unfolding four by (simp add: s0 s1 s2 s3 ys(1))
  ultimately show ?thesis using first by (simp add: g_def primeGenerator_def)
qed

theorem seeds_first_and_only_once_witness:
  "gen_take 4 (primeGenerator (Some 20)) = Some (Inr [2, 3, 5, 7])
   \<and> gen_take (4 + 3) (primeGenerator (Some 20)) = Some (Inr ([2, 3, 5, 7] @ [11, 13, 17]))
   \<and> list_all (\<lambda>v. 11 \<le> v \<and> v \<notin> {2, 3, 5, 7}) [11, 13, 17 :: int]"
proof -
  have run: "gen_take (4 + 3) (primeGenerator (Some 20)) = Some (Inr ([2, 3, 5, 7] @ [11, 13, 17]))"
    by code_simp
  from seeds_first_and_only_once [of "Some 20" 3] obtain ys where
    ys: "gen_take 4 (primeGenerator (Some 20)) = Some (Inr [2, 3, 5, 7])"
      "gen_take (4 + 3) (primeGenerator (Some 20)) = Some (Inr ([2, 3, 5, 7] @ ys))"
      "\<forall>v\<in>set ys. 11 \<le> v \<and> v \<notin> {2, 3, 5, 7}"
    by blast
  from run ys(2) have "ys = [11, 13, 17]" by simp
  with ys run show ?thesis by simp
qed

text \<open>
  Every bound up to the first candidate 11 gives the same output: the four seeds, and
  nothing from the loop.
\<close>

lemma small_bound_output:
  assumes "B \<le> 11"
  shows "gen_all (primeGenerator (Some B)) = Some (Inr [2, 3, 5, 7])"
proof -
  have no: "\<not> is_prime 8" "\<not> is_prime 9" "\<not> is_prime 10" by code_simp+
  have "\<not> is_prime q" if "q \<in> set [8..B - 1]" for q
  proof -
    from that assms have "q = 8 \<or> q = 9 \<or> q = 10" by auto
    with no show ?thesis by blast
  qed
  then have "filter is_prime [8..B - 1] = []" by (simp add: filter_empty_conv)
  then show ?thesis using gen_all_bounded [of B] by simp
qed

text \<open>
  Every bound above 7 gives what the docstring promises: the primes below the bound, each
  once, in ascending order.
\<close>

lemma primes_below_bound:
  assumes "7 < B"
  shows "gen_all (primeGenerator (Some B)) = Some (Inr (filter is_prime [2..B - 1]))"
proof -
  have seeds: "filter is_prime [2..7] = [2, 3, 5, 7]" by code_simp
  have split: "[2..B - 1] = [2..7] @ [8..B - 1]"
  proof (cases "8 \<le> B - 1")
    case True
    have "[2..B - 1] = [2..8 - 1] @ [8..B - 1]"
      by (rule upto_split1) (use True in simp_all)
    moreover have "(8::int) - 1 = 7" by simp
    ultimately show ?thesis by (simp only:)
  next
    case False
    with assms have "B = 8" by simp
    then show ?thesis by simp
  qed
  have "filter is_prime [2..B - 1] = filter is_prime [2..7] @ filter is_prime [8..B - 1]"
    by (simp only: split filter_append)
  then have "filter is_prime [2..B - 1] = [2, 3, 5, 7] @ filter is_prime [8..B - 1]"
    by (simp only: seeds)
  then show ?thesis using gen_all_bounded [of B] by simp
qed

section \<open>The primality test and the integer square root\<close>


lemma rem_is_zero_iff: "rem_is_zero val d \<longleftrightarrow> d \<noteq> 0 \<and> d dvd val"
  by (auto simp: rem_is_zero_def dvd_eq_mod_eq_0)

lemma square_mono:
  assumes "0 \<le> a" and "a \<le> (b::int)"
  shows "a * a \<le> b * b"
  using assms by (intro mult_mono) auto

text \<open>What the loop of \<^verbatim>\<open>isPrime\<close> has tested when it returns true.\<close>

lemma isPrime_loop_tested:
  assumes "isPrime_loop val i" and "0 < i" and "i \<le> j" and "(j - i) mod 6 = 0"
    and "j * j \<le> val"
  shows "\<not> j dvd val \<and> \<not> (j + 2) dvd val"
  using assms
proof (induction val i rule: isPrime_loop.induct)
  case (1 val i)
  have "i * i \<le> j * j" using "1.prems"(2,3) by (intro square_mono) auto
  with "1.prems"(5) have ii: "i * i \<le> val" by simp
  have "0 \<le> i * i" by simp
  with ii have "0 \<le> val" by linarith
  with ii have sq: "le_sqrt i val" by (simp add: le_sqrt_def)
  have unfold: "isPrime_loop val i
      = (\<not> (rem_is_zero val i \<or> rem_is_zero val (i + 2)) \<and> isPrime_loop val (i + 6))"
    using sq by (subst isPrime_loop.simps) simp
  from "1.prems"(1) have nz: "\<not> (rem_is_zero val i \<or> rem_is_zero val (i + 2))"
    and rest: "isPrime_loop val (i + 6)"
    unfolding unfold by simp_all
  show ?case
  proof (cases "j = i")
    case True
    with nz "1.prems"(2) show ?thesis by (simp add: rem_is_zero_iff)
  next
    case False
    with "1.prems"(3,4) have "i + 6 \<le> j" "(j - (i + 6)) mod 6 = 0" by presburger+
    with "1.IH" [OF sq nz rest] "1.prems"(2,5) show ?thesis by simp
  qed
qed

text \<open>\<^verbatim>\<open>isPrime\<close> never takes a composite for a prime.\<close>

lemma isPrime_sound:
  assumes "isPrime val"
  shows "is_prime val"
proof (cases "val = 2")
  case True
  have "is_prime 2" by code_simp
  with True show ?thesis by simp
next
  case False
  from assms False have ge: "2 < val" and n2: "\<not> 2 dvd val" and n3: "\<not> 3 dvd val"
    and loop: "isPrime_loop val 5"
    by (auto simp: isPrime_def rem_is_zero_iff split: if_splits)
  show ?thesis
  proof (rule is_primeI)
    show "2 \<le> val" using ge by simp
  next
    fix d assume d: "2 \<le> d" "d < val"
    show "\<not> d dvd val"
    proof
      assume "d dvd val"
      then obtain m where m: "val = d * m" by auto
      have m2: "2 \<le> m"
      proof (rule ccontr)
        assume "\<not> 2 \<le> m"
        then have "m \<le> 1" by simp
        then have "d * m \<le> d * 1" using d(1) by (intro mult_left_mono) auto
        with m d(2) show False by simp
      qed
      define e where "e = min d m"
      have e2: "2 \<le> e" using d(1) m2 by (simp add: e_def)
      have edvd: "e dvd val" using m by (auto simp: e_def min_def)
      have "e * e \<le> d * m"
        using d(1) m2 by (intro mult_mono) (auto simp: e_def)
      then have ee: "e * e \<le> val" using m by simp
      have "\<not> 2 dvd e" "\<not> 3 dvd e" using edvd n2 n3 dvd_trans by blast+
      with e2 have "e mod 6 = 1 \<or> e mod 6 = 5" by presburger
      then show False
      proof
        assume r: "e mod 6 = 5"
        with e2 have "5 \<le> e" "(e - 5) mod 6 = 0" by presburger+
        from isPrime_loop_tested [OF loop _ this ee] edvd show False by simp
      next
        assume r: "e mod 6 = 1"
        with e2 have j: "5 \<le> e - 2" "(e - 2 - 5) mod 6 = 0" by presburger+
        have "(e - 2) * (e - 2) \<le> e * e" using j(1) by (intro square_mono) auto
        with ee have "(e - 2) * (e - 2) \<le> val" by simp
        from isPrime_loop_tested [OF loop _ j this] edvd show False by simp
      qed
    qed
  qed
qed

lemma floor_sqrt_from_spec:
  assumes "0 \<le> r" and "r * r \<le> val"
  shows "r \<le> floor_sqrt_from r val
     \<and> floor_sqrt_from r val * floor_sqrt_from r val \<le> val
     \<and> val < (floor_sqrt_from r val + 1) * (floor_sqrt_from r val + 1)"
  using assms
proof (induction r val rule: floor_sqrt_from.induct)
  case (1 r val)
  show ?case
  proof (cases "(r + 1) * (r + 1) \<le> val")
    case True
    from "1.IH" [OF True _ True] "1.prems"(1)
    have "r + 1 \<le> floor_sqrt_from (r + 1) val
      \<and> floor_sqrt_from (r + 1) val * floor_sqrt_from (r + 1) val \<le> val
      \<and> val < (floor_sqrt_from (r + 1) val + 1) * (floor_sqrt_from (r + 1) val + 1)"
      by simp
    moreover have "floor_sqrt_from r val = floor_sqrt_from (r + 1) val"
      using True by (subst floor_sqrt_from.simps) simp
    ultimately show ?thesis by simp
  next
    case False
    then have "floor_sqrt_from r val = r" by (subst floor_sqrt_from.simps) simp
    with False "1.prems" show ?thesis by simp
  qed
qed

lemma floor_sqrt_square:
  assumes "0 \<le> p"
  shows "floor_sqrt (p * p) = Some p"
proof -
  define R where "R = floor_sqrt_from 0 (p * p)"
  have "(0::int) * 0 \<le> p * p" by simp
  from floor_sqrt_from_spec [OF _ this]
  have R: "0 \<le> R" "R * R \<le> p * p" "p * p < (R + 1) * (R + 1)" by (simp_all add: R_def)
  have "R \<le> p"
  proof (rule ccontr)
    assume "\<not> R \<le> p"
    then have "p + 1 \<le> R" by simp
    then have "(p + 1) * (p + 1) \<le> R * R" using assms by (intro square_mono) auto
    with R(2) have "(p + 1) * (p + 1) \<le> p * p" by simp
    with assms show False by (simp add: algebra_simps)
  qed
  moreover have "p \<le> R"
  proof (rule ccontr)
    assume "\<not> p \<le> R"
    then have "R + 1 \<le> p" by simp
    then have "(R + 1) * (R + 1) \<le> p * p" using R(1) by (intro square_mono) auto
    with R(3) show False by simp
  qed
  ultimately have "R = p" by simp
  then show ?thesis by (simp add: floor_sqrt_def R_def)
qed

lemma prime_coprime:
  assumes "is_prime p" and "\<not> p dvd a"
  shows "coprime p a"
proof -
  define g where "g = gcd p a"
  have gp: "g dvd p" and ga: "g dvd a" by (simp_all add: g_def)
  have p2: "2 \<le> p" using assms(1) by (rule is_prime_ge2)
  have "0 \<le> g" by (simp add: g_def)
  moreover have "g \<noteq> 0" using p2 by (auto simp: g_def)
  ultimately have g1: "1 \<le> g" by simp
  have gle: "g \<le> p" using gp p2 by (intro zdvd_imp_le) auto
  have "g \<noteq> p" using ga assms(2) by auto
  with gle have "g < p" by simp
  with is_primeD [OF assms(1), of g] gp have "\<not> 2 \<le> g" by blast
  with g1 have "g = 1" by simp
  then show ?thesis by (simp add: g_def coprime_iff_gcd_eq_1)
qed

lemma prime_dvd_mult:
  assumes "is_prime p" and "p dvd a * b"
  shows "p dvd a \<or> p dvd b"
proof (cases "p dvd a")
  case True
  then show ?thesis by simp
next
  case False
  with assms(1) have "coprime p a" by (rule prime_coprime)
  with assms(2) have "p dvd b" by (simp add: coprime_dvd_mult_right_iff)
  then show ?thesis by simp
qed

lemma below_prime_not_dvd_square:
  assumes p: "is_prime p" and y: "2 \<le> y" "y < p"
  shows "\<not> y dvd p * p"
proof
  assume d: "y dvd p * p"
  from prime_divisor_exists [OF y(1)] obtain q where q: "is_prime q" "q dvd y" "q \<le> y"
    by blast
  have "q dvd p * p" using q(2) d by (rule dvd_trans)
  with q(1) have "q dvd p" using prime_dvd_mult by blast
  moreover have "2 \<le> q" using q(1) by (rule is_prime_ge2)
  moreover have "q < p" using q(3) y(2) by simp
  ultimately show False using is_primeD [OF p] by blast
qed

text \<open>When the loop of \<^verbatim>\<open>isPrime\<close> returns false, it has found a proper divisor.\<close>

lemma isPrime_loop_false:
  assumes "\<not> isPrime_loop val i" and "5 \<le> i"
  shows "\<exists>d. 2 \<le> d \<and> d < val \<and> d dvd val"
  using assms
proof (induction val i rule: isPrime_loop.induct)
  case (1 val i)
  have sq: "le_sqrt i val"
  proof (rule ccontr)
    assume "\<not> le_sqrt i val"
    then have "isPrime_loop val i" by (subst isPrime_loop.simps) simp
    with "1.prems"(1) show False by simp
  qed
  with "1.prems"(2) have ii: "i * i \<le> val" by (simp add: le_sqrt_def)
  have "i * 5 \<le> i * i" using "1.prems"(2) by (intro mult_left_mono) auto
  with ii "1.prems"(2) have lt: "i < val" "i + 2 < val" by linarith+
  show ?case
  proof (cases "rem_is_zero val i \<or> rem_is_zero val (i + 2)")
    case True
    then show ?thesis
    proof
      assume "rem_is_zero val i"
      then have "i dvd val" by (simp add: rem_is_zero_iff)
      with lt(1) "1.prems"(2) show ?thesis by (intro exI [of _ i]) simp
    next
      assume "rem_is_zero val (i + 2)"
      then have "(i + 2) dvd val" by (simp add: rem_is_zero_iff)
      with lt(2) "1.prems"(2) show ?thesis by (intro exI [of _ "i + 2"]) simp
    qed
  next
    case False
    have "isPrime_loop val i = isPrime_loop val (i + 6)"
      using sq False by (subst isPrime_loop.simps) simp
    with "1.prems"(1) have "\<not> isPrime_loop val (i + 6)" by simp
    moreover have "5 \<le> i + 6" using "1.prems"(2) by simp
    ultimately show ?thesis using "1.IH" [OF sq False] by blast
  qed
qed

text \<open>3 is the only prime that \<^verbatim>\<open>isPrime\<close> rejects.\<close>

lemma isPrime_complete:
  assumes "is_prime val" and "val \<noteq> 3"
  shows "isPrime val"
proof (cases "val = 2")
  case True
  then show ?thesis by (simp add: isPrime_def)
next
  case False
  with assms is_prime_ge2 [OF assms(1)] have gt: "3 < val" by simp
  have n2: "\<not> rem_is_zero val 2" using is_primeD [OF assms(1), of 2] gt
    by (simp add: rem_is_zero_iff)
  have n3: "\<not> rem_is_zero val 3" using is_primeD [OF assms(1), of 3] gt
    by (simp add: rem_is_zero_iff)
  have "isPrime_loop val 5"
  proof (rule ccontr)
    assume "\<not> isPrime_loop val 5"
    then obtain d where "2 \<le> d" "d < val" "d dvd val" using isPrime_loop_false by blast
    with is_primeD [OF assms(1)] show False by blast
  qed
  with gt n2 n3 show ?thesis by (simp add: isPrime_def)
qed

section \<open>The primality test on 3\<close>

text \<open>
  C4 at the value 3: \<^verbatim>\<open>isPrime(3)\<close> is false, because \<^verbatim>\<open>value % 3 == 0\<close> is tested
  before any check that the value is 3 itself; yet 3 is prime, and no integer in
  \<open>[2, \<surd>3]\<close> divides it.
\<close>

theorem isPrime_3_is_false:
  "isPrime 3 = False"
  by code_simp

section \<open>The factor search\<close>





text \<open>
  C10: for every prime \<open>p\<close> of 11 or more, \<^verbatim>\<open>primeFactors(p * p, existingFactors)\<close>
  returns \<^verbatim>\<open>undefined\<close>: the square is not prime, the generator bounded at
  \<open>floor (sqrt (p * p)) = p\<close> ends before it yields \<open>p\<close>, none of the values it yields
  divides the square, and the function falls off its end.
\<close>

theorem primeFactors_square_of_prime_undefined:
  assumes "is_prime p" and "11 \<le> p"
  shows "primeFactors (p * p) existingFactors = Some (Inr NoResult)
       \<and> find_factor (p * p) (primeGenerator (Some p)) = Some (Inr None)
       \<and> (\<exists>ys. gen_all (primeGenerator (Some p)) = Some (Inr ys) \<and> p \<notin> set ys)"
proof -
  have p0: "0 \<le> p" and p2: "2 \<le> p" using assms(2) by simp_all
  have "p * 1 < p * p" using assms(2) by (intro mult_strict_left_mono) auto
  then have lt: "p < p * p" by simp
  then have ne1: "p * p \<noteq> 1" using p2 by linarith
  have "\<not> is_prime (p * p)" using is_primeD [of "p * p" p] p2 lt by auto
  then have np: "\<not> isPrime (p * p)" using isPrime_sound by blast
  have bound: "floor_sqrt (p * p) = Some p" using p0 by (rule floor_sqrt_square)
  define ys where "ys = [2, 3, 5, 7] @ filter is_prime [8..p - 1]"
  have all: "gen_all (primeGenerator (Some p)) = Some (Inr ys)"
    unfolding ys_def by (rule gen_all_bounded)
  have small: "2 \<le> y \<and> y < p" if "y \<in> set ys" for y
    using that assms(2) by (auto simp: ys_def)
  have "\<not> rem_is_zero (p * p) y" if "y \<in> set ys" for y
    using below_prime_not_dvd_square [OF assms(1)] small [OF that]
    by (simp add: rem_is_zero_iff)
  then have "List.find (rem_is_zero (p * p)) ys = None" by (simp add: find_None_iff)
  with find_factor_gen_all [OF all, of "p * p"]
  have ff: "find_factor (p * p) (primeGenerator (Some p)) = Some (Inr None)" by simp
  have "primeFactors (p * p) existingFactors = Some (Inr NoResult)"
    using ne1 np bound ff by (subst primeFactors.simps) simp
  moreover have "p \<notin> set ys" using small by blast
  ultimately show ?thesis using ff all by blast
qed

theorem primeFactors_square_of_prime_undefined_witness:
  "is_prime 11 \<and> (11::int) \<le> 11
   \<and> primeFactors 121 [] = Some (Inr NoResult)
   \<and> find_factor 121 (primeGenerator (Some 11)) = Some (Inr None)
   \<and> gen_all (primeGenerator (Some 11)) = Some (Inr [2, 3, 5, 7])"
proof -
  have h1: "is_prime 11" by code_simp
  have h2: "(11::int) \<le> 11" by simp
  have run: "gen_all (primeGenerator (Some 11)) = Some (Inr [2, 3, 5, 7])" by code_simp
  from primeFactors_square_of_prime_undefined [OF h1 h2, of "[]"] h1 run
  show ?thesis by simp
qed

section \<open>Factorisation on concrete values\<close>


section \<open>What the factorisation returns\<close>







end
